theory Spec2Isabelle
  imports Complex_Main "HOL-Library.Word"
begin

unbundle bit_operations_syntax

section \<open>The frame processor: \<^verbatim>\<open>audio_processor.h\<close>, \<^verbatim>\<open>audio_processor.cpp\<close>\<close>

text \<open>
  Conventions of the embedding.
  \<^item> A C++ \<^verbatim>\<open>float\<close> is a \<^typ>\<open>real\<close> and a \<^verbatim>\<open>std::complex<float>\<close> a
    \<^typ>\<open>complex\<close>: arithmetic is exact, rounding and overflow are not modelled.
  \<^item> Three divisions of the code have a divisor that can be zero. Two of them return an
    \<open>fval\<close>, which tells a finite quotient from the IEEE results of dividing by zero:
    the triangle weight of the filter bank, and the angle of the Hann window (zero
    divisor for a window of one sample). A feature value is a \<^typ>\<open>real option\<close>, where
    \<open>None\<close> is NaN. The third is the division by \<^verbatim>\<open>sample_rate\<close> in the bin positions:
    the positions are real numbers here, which is what the code computes when the
    sample rate is not zero and both frequencies lie above \<open>-700\<close> Hz (at or below it the
    logarithm of \<^verbatim>\<open>hz_to_mel\<close> has no finite value). The model says nothing about the
    filter bank of any other configuration, and the theorems about the values of the
    filter bank assume \<open>finite_bins\<close>.
  \<^item> A \<^verbatim>\<open>std::vector\<close> is a list. The sizes \<^verbatim>\<open>window_length\<close>, \<^verbatim>\<open>n_fft\<close> and
    \<^verbatim>\<open>n_mels\<close> are naturals (a negative size makes \<^verbatim>\<open>resize\<close> throw before any
    derived value exists); \<^verbatim>\<open>hop_length\<close> and \<^verbatim>\<open>sample_rate\<close> stay integers.
  \<^item> A counted loop \<^verbatim>\<open>for (i = 0; i < n; i++)\<close> is a \<open>fold\<close> over \<open>[0..<n]\<close>, an
    assignment \<^verbatim>\<open>a[i] = v\<close> the list update \<open>a[i := v]\<close>. An index outside the vector
    is undefined behaviour in C++; the theorems carry the size invariants under which
    no such index occurs.
\<close>

datatype fval = Fin real | Inf | NaN

text \<open>\<^verbatim>\<open>x / y\<close> on floats: a zero divisor gives NaN for \<^verbatim>\<open>0 / 0\<close> and an infinity otherwise.\<close>

definition fdiv :: "real \<Rightarrow> real \<Rightarrow> fval" where
  "fdiv x y = (if y \<noteq> 0 then Fin (x / y) else if x = 0 then NaN else Inf)"

text \<open>\<^verbatim>\<open>v.resize(n)\<close>: keeps the first \<open>n\<close> elements, pads with value-initialised ones.\<close>

definition resize :: "nat \<Rightarrow> 'a \<Rightarrow> 'a list \<Rightarrow> 'a list" where
  "resize n d xs = take n xs @ replicate (n - length xs) d"

text \<open>
  Two nested counted loops that store \<^verbatim>\<open>a[i * cols + j] = f(i, j)\<close>, the row-major
  fill used for the filter bank and for the flattened model input.
\<close>

definition fill_rows :: "nat \<Rightarrow> nat \<Rightarrow> (nat \<Rightarrow> nat \<Rightarrow> 'a) \<Rightarrow> 'a list \<Rightarrow> 'a list" where
  "fill_rows rows cols f a =
     fold (\<lambda>i a. fold (\<lambda>j a. a[i * cols + j := f i j]) [0..<cols] a) [0..<rows] a"

text \<open>The private members of \<^verbatim>\<open>class AudioProcessor\<close> (\<^verbatim>\<open>fft_buffer\<close> is never used).\<close>

record audio_processor =
  sample_rate :: int
  hop_length :: int
  window_length :: nat
  n_fft :: nat
  n_mels :: nat
  f_min :: real
  f_max :: real
  window :: "fval list"
  window_buffer :: "real list"
  previous_samples :: "real list"
  mel_filter_bank :: "fval list"
  fft_input :: "complex list"
  fft_output :: "complex list"
  bit_reverse_table :: "nat list"
  trig_tables :: "complex list"

subsection \<open>Derived tables\<close>

text \<open>
  \<^verbatim>\<open>init_window\<close>: the Hann window; the transient window buffer is resized with it. The
  angle divides by \<^verbatim>\<open>window_length - 1\<close>, which is zero for a window of one sample; the
  cosine of an angle that is not finite is NaN, and so is the coefficient.
\<close>

definition init_window :: "audio_processor \<Rightarrow> audio_processor" where
  "init_window p =
     p\<lparr>window := map (\<lambda>i. case fdiv (2 * pi * real i) (of_int (int (window_length p) - 1)) of
                              Fin angle \<Rightarrow> Fin (0.5 * (1 - cos angle))
                            | _ \<Rightarrow> NaN)
                    [0..<window_length p],
       window_buffer := resize (window_length p) 0 (window_buffer p)\<rparr>"

text \<open>\<^verbatim>\<open>reset\<close>: the overlap buffer becomes \<open>max 0 (window_length - hop_length)\<close> zeros.\<close>

definition reset :: "audio_processor \<Rightarrow> audio_processor" where
  "reset p =
     (let overlap_len = int (window_length p) - hop_length p;
          overlap_len = (if overlap_len < 0 then 0 else overlap_len)
      in p\<lparr>previous_samples := replicate (nat overlap_len) 0\<rparr>)"

text \<open>
  \<^verbatim>\<open>init_fft\<close>. \<open>fft_levels\<close> is the loop \<^verbatim>\<open>while (temp > 1) { temp >>= 1; levels++; }\<close>,
  \<open>bit_reverse\<close> the inner loop that runs \<open>levels\<close> times over \<^verbatim>\<open>rev\<close> and \<^verbatim>\<open>curr\<close> (here \<open>r\<close> and \<open>c\<close>).
\<close>

function fft_levels :: "nat \<Rightarrow> nat \<Rightarrow> nat" where
  "fft_levels temp levels =
     (if temp > 1 then fft_levels (drop_bit 1 temp) (levels + 1) else levels)"
  by pat_completeness auto
termination
  by (relation "measure (\<lambda>(temp, levels). temp)") (auto simp: drop_bit_eq_div)

fun bit_reverse :: "nat \<Rightarrow> nat \<Rightarrow> nat \<Rightarrow> nat" where
  "bit_reverse 0 r c = r"
| "bit_reverse (Suc j) r c = bit_reverse j (push_bit 1 r OR (c AND 1)) (drop_bit 1 c)"

definition init_fft :: "audio_processor \<Rightarrow> audio_processor" where
  "init_fft p =
     (let levels = fft_levels (n_fft p) 0
      in p\<lparr>bit_reverse_table := map (\<lambda>i. bit_reverse levels 0 i) [0..<n_fft p],
           trig_tables := map (\<lambda>i. let angle = - 2 * pi * real i / real (n_fft p)
                                    in Complex (cos angle) (sin angle)) [0..<n_fft p div 2],
           fft_input := resize (n_fft p) 0 (fft_input p),
           fft_output := resize (n_fft p) 0 (fft_output p)\<rparr>)"

subsection \<open>The transform\<close>

text \<open>
  \<^verbatim>\<open>perform_fft\<close>, loop by loop. \<open>swap_step\<close> is one iteration of the bit-reversal
  permutation, \<open>butterfly\<close> one iteration of the innermost loop, \<open>fft_groups\<close> the loop
  \<^verbatim>\<open>for (i = 0; i < n; i += len)\<close> and \<open>fft_stages\<close> the loop
  \<^verbatim>\<open>for (len = 2; len <= n; len <<= 1)\<close>. Both loops are entered with \<open>len \<ge> 2\<close> only; the
  test \<open>0 < len\<close> makes the functions total and is true at every call the code makes.
  Lengths stay below \<open>2 ^ 31\<close> in the code, so \<^verbatim>\<open>len <<= 1\<close> is a doubling.
\<close>

definition swap_step :: "nat list \<Rightarrow> nat \<Rightarrow> complex list \<Rightarrow> complex list" where
  "swap_step brt i data =
     (if i < brt ! i then data[i := data ! (brt ! i), brt ! i := data ! i] else data)"

definition butterfly :: "complex list \<Rightarrow> nat \<Rightarrow> nat \<Rightarrow> nat \<Rightarrow> nat \<Rightarrow> complex list \<Rightarrow> complex list" where
  "butterfly trig half_len step i j data =
     (let u = data ! (i + j);
          v = data ! (i + j + half_len) * trig ! (j * step)
      in data[i + j := u + v, i + j + half_len := u - v])"

function fft_groups :: "complex list \<Rightarrow> nat \<Rightarrow> nat \<Rightarrow> nat \<Rightarrow> complex list \<Rightarrow> complex list" where
  "fft_groups trig n len i data =
     (if 0 < len \<and> i < n
      then fft_groups trig n len (i + len)
             (fold (butterfly trig (drop_bit 1 len) (n div len) i) [0..<drop_bit 1 len] data)
      else data)"
  by pat_completeness auto
termination
  by (relation "measure (\<lambda>(trig, n, len, i, data). n - i)") auto

function fft_stages :: "complex list \<Rightarrow> nat \<Rightarrow> nat \<Rightarrow> complex list \<Rightarrow> complex list" where
  "fft_stages trig n len data =
     (if 0 < len \<and> len \<le> n
      then fft_stages trig n (push_bit 1 len) (fft_groups trig n len 0 data)
      else data)"
  by pat_completeness auto
termination
  by (relation "measure (\<lambda>(trig, n, len, data). Suc n - len)") (auto simp: push_bit_eq_mult)

definition perform_fft :: "audio_processor \<Rightarrow> complex list \<Rightarrow> complex list" where
  "perform_fft p data =
     (let n = length data;
          data = fold (swap_step (bit_reverse_table p)) [0..<n] data
      in fft_stages (trig_tables p) n 2 data)"

subsection \<open>The mel filter bank\<close>

definition hz_to_mel :: "real \<Rightarrow> real" where
  "hz_to_mel hz = 2595 * log 10 (1 + hz / 700)"

definition mel_to_hz :: "real \<Rightarrow> real" where
  "mel_to_hz mel = 700 * (10 powr (mel / 2595) - 1)"

text \<open>The local vector \<^verbatim>\<open>bin_points\<close> of \<^verbatim>\<open>init_mel_filter_bank\<close>, first loop.\<close>

definition bin_points :: "audio_processor \<Rightarrow> real list" where
  "bin_points p =
     (let mel_min = hz_to_mel (f_min p);
          mel_max = hz_to_mel (f_max p)
      in map (\<lambda>i. let mel = mel_min + (mel_max - mel_min) * real i / real (n_mels p + 1);
                      hz = mel_to_hz mel
                  in real (n_fft p + 1) * hz / of_int (sample_rate p)) [0..<n_mels p + 2])"

text \<open>The body of the inner loop of the second loop: the weight of bin \<open>j\<close>.\<close>

definition mel_weight :: "nat \<Rightarrow> real \<Rightarrow> real \<Rightarrow> real \<Rightarrow> fval" where
  "mel_weight j left center right =
     (if real j \<ge> left \<and> real j \<le> center then fdiv (real j - left) (center - left)
      else if real j > center \<and> real j \<le> right then fdiv (right - real j) (right - center)
      else Fin 0)"

definition init_mel_filter_bank :: "audio_processor \<Rightarrow> audio_processor" where
  "init_mel_filter_bank p =
     (let num_spectra = n_fft p div 2 + 1;
          bins = bin_points p
      in p\<lparr>mel_filter_bank :=
             fill_rows (n_mels p) num_spectra
               (\<lambda>i j. mel_weight j (bins ! i) (bins ! (i + 1)) (bins ! (i + 2)))
               (replicate (n_mels p * num_spectra) (Fin 0))\<rparr>)"

subsection \<open>Configuration\<close>

definition set_sample_rate :: "int \<Rightarrow> audio_processor \<Rightarrow> audio_processor" where
  "set_sample_rate p_rate p = init_mel_filter_bank (p\<lparr>sample_rate := p_rate\<rparr>)"

definition set_fft_size :: "nat \<Rightarrow> audio_processor \<Rightarrow> audio_processor" where
  "set_fft_size p_size p = init_mel_filter_bank (init_fft (p\<lparr>n_fft := p_size\<rparr>))"

definition set_hop_length :: "int \<Rightarrow> audio_processor \<Rightarrow> audio_processor" where
  "set_hop_length p_length p = reset (p\<lparr>hop_length := p_length\<rparr>)"

definition set_window_length :: "nat \<Rightarrow> audio_processor \<Rightarrow> audio_processor" where
  "set_window_length p_length p = reset (init_window (p\<lparr>window_length := p_length\<rparr>))"

definition set_mel_bands :: "nat \<Rightarrow> audio_processor \<Rightarrow> audio_processor" where
  "set_mel_bands p_bands p = init_mel_filter_bank (p\<lparr>n_mels := p_bands\<rparr>)"

definition set_frequency_range :: "real \<Rightarrow> real \<Rightarrow> audio_processor \<Rightarrow> audio_processor" where
  "set_frequency_range p_min p_max p = init_mel_filter_bank (p\<lparr>f_min := p_min, f_max := p_max\<rparr>)"

text \<open>The constructor: the member initialisers of the header, then the four calls.\<close>

definition member_defaults :: audio_processor where
  "member_defaults =
     \<lparr>sample_rate = 16000, hop_length = 160, window_length = 400, n_fft = 1024, n_mels = 80,
      f_min = 50, f_max = 8000, window = [], window_buffer = [], previous_samples = [],
      mel_filter_bank = [], fft_input = [], fft_output = [], bit_reverse_table = [],
      trig_tables = []\<rparr>"

definition new_audio_processor :: audio_processor where
  "new_audio_processor = reset (init_mel_filter_bank (init_fft (init_window member_defaults)))"

subsection \<open>\<^verbatim>\<open>process_frame\<close>\<close>

text \<open>
  Step 1: the overlap is copied to the front of the window buffer, the new samples
  behind it (only below \<^verbatim>\<open>window_length\<close>).
\<close>

definition fill_window_buffer :: "audio_processor \<Rightarrow> real list \<Rightarrow> real list" where
  "fill_window_buffer p p_samples =
     (let overlap_len = length (previous_samples p);
          wb = fold (\<lambda>i wb. wb[i := previous_samples p ! i]) [0..<overlap_len] (window_buffer p)
      in fold (\<lambda>i wb. if overlap_len + i < window_length p
                       then wb[overlap_len + i := p_samples ! i] else wb)
           [0..<nat (hop_length p)] wb)"

text \<open>The overlap for the next call, read from the filled window buffer \<open>wb\<close>.\<close>

definition next_previous_samples :: "audio_processor \<Rightarrow> real list \<Rightarrow> real list" where
  "next_previous_samples p wb =
     (let overlap_len = length (previous_samples p)
      in fold (\<lambda>i prev. if hop_length p + int i < int (window_length p)
                         then prev[i := wb ! nat (hop_length p + int i)]
                         else prev[i := 0])
           [0..<overlap_len] (previous_samples p))"

text \<open>
  Step 2: \<^verbatim>\<open>std::fill\<close> with zero, then the windowed samples. The product of a sample
  with a coefficient that is not finite is not finite either, and has no place in a
  \<^typ>\<open>complex list\<close>: the input of the transform is then \<open>None\<close>.
\<close>

definition windowed_fft_input :: "audio_processor \<Rightarrow> real list \<Rightarrow> complex list option" where
  "windowed_fft_input p wb =
     fold (\<lambda>i f. case (f, window p ! i) of
                    (Some f, Fin w) \<Rightarrow> Some (f[i := Complex (wb ! i * w) 0])
                  | _ \<Rightarrow> None)
       [0..<window_length p] (Some (map (\<lambda>_. 0) (fft_input p)))"

text \<open>
  Steps 4 and 5 for band \<open>i\<close>: the weighted sum of the power spectrum
  (\<^verbatim>\<open>std::norm\<close> is the squared magnitude), then \<^verbatim>\<open>10 * log10(max(sum, 1e-10))\<close>.
  A weight that is not finite leaves the sum, and so the band, not a number.
\<close>

definition mel_energy :: "audio_processor \<Rightarrow> complex list \<Rightarrow> nat \<Rightarrow> real option" where
  "mel_energy p spectrum i =
     (let num_spectra = n_fft p div 2 + 1;
          sum = fold (\<lambda>j sum. case (sum, mel_filter_bank p ! (i * num_spectra + j)) of
                                (Some s, Fin w) \<Rightarrow> Some (s + (cmod (spectrum ! j))\<^sup>2 * w)
                              | _ \<Rightarrow> None)
                  [0..<num_spectra] (Some 0)
      in map_option (\<lambda>s. 10 * log 10 (max s (1 / 10 ^ 10))) sum)"

text \<open>
  Step 6: the frame is normalised against its own mean and standard deviation
  (floored at \<^verbatim>\<open>1e-8\<close>). One NaN band makes the mean, and with it every output, NaN.
\<close>

definition normalize_frame :: "real option list \<Rightarrow> real option list" where
  "normalize_frame mel =
     (if list_all (\<lambda>m. m \<noteq> None) mel
      then let vals = map the mel;
               mean = sum_list vals / real (length vals);
               sum_sq = sum_list (map (\<lambda>x. (x - mean) * (x - mean)) vals);
               std = sqrt (sum_sq / real (length vals));
               std = (if std < 1 / 10 ^ 8 then 1 / 10 ^ 8 else std)
           in map (\<lambda>x. Some ((x - mean) / std)) vals
      else replicate (length mel) None)"

text \<open>
  \<^verbatim>\<open>process_frame\<close>. When the input of the transform holds a value that is not finite
  (which only the window of one sample brings about), every butterfly that reads it
  writes NaN, so bin \<open>0\<close> of the spectrum, every band sum and every feature is NaN. The
  member \<^verbatim>\<open>fft_input\<close>, which the next call overwrites before reading it, is then left
  as it was.
\<close>

definition process_frame :: "audio_processor \<Rightarrow> real list \<Rightarrow> real option list \<times> audio_processor" where
  "process_frame p p_samples =
     (if int (length p_samples) \<noteq> hop_length p then ([], p)
      else let wb = fill_window_buffer p p_samples;
               prev = next_previous_samples p wb
           in case windowed_fft_input p wb of
                None \<Rightarrow>
                  (replicate (n_mels p) None, p\<lparr>window_buffer := wb, previous_samples := prev\<rparr>)
              | Some input \<Rightarrow>
                  let spectrum = perform_fft p input;
                      mel_features = map (mel_energy p spectrum) [0..<n_mels p]
                  in (normalize_frame mel_features,
                      p\<lparr>window_buffer := wb, previous_samples := prev, fft_input := spectrum\<rparr>))"

section \<open>The inference engine: \<^verbatim>\<open>onnx_model.h\<close>, \<^verbatim>\<open>onnx_model.cpp\<close>\<close>

text \<open>
  The ONNX runtime is outside the repository. A session is the function it computes on a
  flat tensor, empty results for a shape mismatch or a runtime exception included;
  \<^verbatim>\<open>load_model\<close> gets as \<open>file\<close> what the runtime makes of the path: a session, or
  \<open>None\<close> when it throws.
\<close>

type_synonym tensor = "real option list"

record onnx_model =
  session :: "(tensor \<Rightarrow> tensor) option"

definition onnx_load_model :: "(tensor \<Rightarrow> tensor) option \<Rightarrow> onnx_model \<Rightarrow> bool \<times> onnx_model" where
  "onnx_load_model file m =
     (case file of
        Some run \<Rightarrow> (True, m\<lparr>session := Some run\<rparr>)
      | None \<Rightarrow> (False, m\<lparr>session := None\<rparr>))"

definition run_inference :: "onnx_model \<Rightarrow> tensor \<Rightarrow> tensor" where
  "run_inference m p_input = (case session m of None \<Rightarrow> [] | Some run \<Rightarrow> run p_input)"

section \<open>The scheduler: \<^verbatim>\<open>lip_sync_context.h\<close>, \<^verbatim>\<open>lip_sync_context.cpp\<close>\<close>

text \<open>
  \<open>model = None\<close> is the null \<^verbatim>\<open>Ref<OnnxModel>\<close>. \<^verbatim>\<open>context_size\<close> is a 32-bit \<^verbatim>\<open>int\<close>;
  \<^verbatim>\<open>target_sample_rate\<close> is never assigned, and \<^verbatim>\<open>resample_ratio\<close> never read.
\<close>

record lip_sync_context =
  processor :: audio_processor
  model :: "onnx_model option"
  audio_buffer :: "real list"
  feature_buffer :: "tensor list"
  context_size :: "32 word"
  resample_fraction :: real

abbreviation target_sample_rate :: int where
  "target_sample_rate \<equiv> 16000"

definition new_lip_sync_context :: lip_sync_context where
  "new_lip_sync_context =
     \<lparr>processor = set_mel_bands 80 (set_window_length 400 (set_hop_length 160
                    (set_sample_rate 16000 new_audio_processor))),
      model = None, audio_buffer = [], feature_buffer = [], context_size = 100,
      resample_fraction = 0\<rparr>"

definition lsc_reset :: "lip_sync_context \<Rightarrow> lip_sync_context" where
  "lsc_reset c =
     c\<lparr>audio_buffer := [], feature_buffer := [], processor := reset (processor c),
       resample_fraction := 0\<rparr>"

definition load_model :: "(tensor \<Rightarrow> tensor) option \<Rightarrow> lip_sync_context \<Rightarrow> bool \<times> lip_sync_context" where
  "load_model file c =
     (let m = (case model c of None \<Rightarrow> \<lparr>session = None\<rparr> | Some m \<Rightarrow> m);
          (success, m) = onnx_load_model file m;
          c = c\<lparr>model := Some m\<rparr>
      in if success then (True, lsc_reset c) else (False, c))"

text \<open>
  \<^verbatim>\<open>feature_buffer.size() > context_size\<close> compares a \<^verbatim>\<open>size_t\<close> with an \<^verbatim>\<open>int\<close>: the
  \<^verbatim>\<open>int\<close> is sign-extended to 64 bits and read as unsigned.
\<close>

definition size_gt :: "nat \<Rightarrow> 32 word \<Rightarrow> bool" where
  "size_gt n i = (n > unat (scast i :: 64 word))"

text \<open>\<^verbatim>\<open>while (feature_buffer.size() > context_size) feature_buffer.pop_front();\<close>\<close>

function trim_front :: "32 word \<Rightarrow> tensor list \<Rightarrow> tensor list" where
  "trim_front cs fb = (if size_gt (length fb) cs then trim_front cs (tl fb) else fb)"
  by pat_completeness auto
termination
  by (relation "measure (\<lambda>(cs, fb). length fb)") (auto simp: size_gt_def)

definition set_context_size :: "32 word \<Rightarrow> lip_sync_context \<Rightarrow> lip_sync_context" where
  "set_context_size p_frames c =
     c\<lparr>context_size := p_frames, feature_buffer := trim_front p_frames (feature_buffer c)\<rparr>"

subsection \<open>The resampler\<close>

text \<open>The cast \<^verbatim>\<open>(int)current_pos\<close> truncates towards zero.\<close>

definition trunc :: "real \<Rightarrow> int" where
  "trunc x = (if x \<ge> 0 then \<lfloor>x\<rfloor> else \<lceil>x\<rceil>)"

text \<open>
  The loop \<^verbatim>\<open>while (current_pos < count - 1)\<close>, with \<open>count = length input\<close>; it returns the
  final position and the audio buffer. With a ratio that is not positive it need not
  end: not returning is \<open>None\<close>.
\<close>

partial_function (option) resample_loop ::
    "real list \<Rightarrow> real \<Rightarrow> real \<Rightarrow> real list \<Rightarrow> (real \<times> real list) option" where
  "resample_loop input ratio current_pos buf =
     (if current_pos < of_int (int (length input) - 1)
      then let idx = trunc current_pos;
               t = current_pos - of_int idx;
               s0 = input ! nat idx;
               s1 = input ! nat (idx + 1);
               val = s0 + (s1 - s0) * t
           in resample_loop input ratio (current_pos + ratio) (buf @ [val])
      else Some (current_pos, buf))"

definition resample_and_push :: "lip_sync_context \<Rightarrow> real list \<Rightarrow> int \<Rightarrow> lip_sync_context option" where
  "resample_and_push c input source_rate =
     (let count = length input
      in if count = 0 then Some c
         else if source_rate \<noteq> target_sample_rate
         then let ratio = real_of_int source_rate / real_of_int target_sample_rate
              in case resample_loop input ratio (resample_fraction c) (audio_buffer c) of
                   None \<Rightarrow> None
                 | Some (current_pos, buf) \<Rightarrow>
                     let fraction = current_pos - real count;
                         fraction = (if fraction < 0 then fraction + ratio else fraction)
                     in Some (c\<lparr>audio_buffer := buf, resample_fraction := fraction\<rparr>)
         else Some (c\<lparr>audio_buffer := audio_buffer c @ input\<rparr>))"

subsection \<open>\<^verbatim>\<open>process\<close>\<close>

text \<open>The locals \<^verbatim>\<open>int hop_length = 160\<close> and \<^verbatim>\<open>int n_mels = 80\<close> of \<^verbatim>\<open>process\<close>.\<close>

abbreviation lsc_hop_length :: nat where
  "lsc_hop_length \<equiv> 160"

abbreviation lsc_n_mels :: nat where
  "lsc_n_mels \<equiv> 80"

text \<open>
  Step 3, the loop \<^verbatim>\<open>while (audio_buffer.size() >= hop_length)\<close>; the flag is
  \<^verbatim>\<open>new_features_added\<close>.
\<close>

function process_hops :: "lip_sync_context \<Rightarrow> bool \<Rightarrow> lip_sync_context \<times> bool" where
  "process_hops c new_features_added =
     (if length (audio_buffer c) \<ge> lsc_hop_length
      then let chunk = take lsc_hop_length (audio_buffer c);
               (features, pr) = process_frame (processor c) chunk;
               fb = (if length features > 0 then feature_buffer c @ [features]
                     else feature_buffer c);
               added = (if length features > 0 then True else new_features_added);
               ab = drop lsc_hop_length (audio_buffer c);
               fb = (if size_gt (length fb) (context_size c) then tl fb else fb)
           in process_hops (c\<lparr>processor := pr, audio_buffer := ab, feature_buffer := fb\<rparr>) added
      else (c, new_features_added))"
  by pat_completeness auto
termination
  by (relation "measure (\<lambda>(c, added). length (audio_buffer c))") auto

text \<open>
  One iteration of that loop as a state transformer: \<open>process_hops\<close> is \<open>hop_step\<close>
  repeated while the buffer holds a hop (lemma \<open>process_hops_unfold\<close>).
\<close>

definition hop_step :: "lip_sync_context \<Rightarrow> lip_sync_context" where
  "hop_step c =
     (let r = process_frame (processor c) (take lsc_hop_length (audio_buffer c));
          fb = (if length (fst r) > 0 then feature_buffer c @ [fst r] else feature_buffer c)
      in c\<lparr>processor := snd r, audio_buffer := drop lsc_hop_length (audio_buffer c),
           feature_buffer := (if size_gt (length fb) (context_size c) then tl fb else fb)\<rparr>)"

text \<open>Step 4 once the test \<^verbatim>\<open>new_features_added && !feature_buffer.empty()\<close> has passed.\<close>

definition infer_last_frame :: "onnx_model \<Rightarrow> tensor list \<Rightarrow> tensor" where
  "infer_last_frame m fb =
     (let n_frames = length fb;
          flat_input = fill_rows n_frames lsc_n_mels (\<lambda>i j. fb ! i ! j)
                         (replicate (n_frames * lsc_n_mels) (Some 0));
          output = run_inference m flat_input
      in if length output > 0
         then let num_visemes = length output div n_frames;
                  start_idx = (n_frames - 1) * num_visemes
              in map (\<lambda>i. output ! (start_idx + i)) [0..<num_visemes]
         else [])"

definition process ::
    "lip_sync_context \<Rightarrow> (real \<times> real) list \<Rightarrow> int \<Rightarrow> (tensor \<times> lip_sync_context) option" where
  "process c p_audio_data p_source_sample_rate =
     (case model c of
        None \<Rightarrow> Some ([], c)
      | Some m \<Rightarrow>
          (let sample_count = length p_audio_data
           in if sample_count = 0 then Some ([], c)
              else (let mono_input = map (\<lambda>(x, y). (x + y) * 0.5) p_audio_data
                    in (case resample_and_push c mono_input p_source_sample_rate of
                          None \<Rightarrow> None
                        | Some c \<Rightarrow>
                            (case process_hops c False of
                               (c, new_features_added) \<Rightarrow>
                                 if new_features_added \<and> feature_buffer c \<noteq> []
                                 then Some (infer_last_frame m (feature_buffer c), c)
                                 else Some ([], c))))))"

section \<open>Invariants, reference definitions and example states\<close>

subsection \<open>Size invariants of the frame processor\<close>

text \<open>
  \<open>buffers_ok\<close> holds after the constructor and is kept by every public method (lemmas
  \<open>buffers_ok_new\<close>, \<open>buffers_ok_setters\<close>, \<open>buffers_ok_process_frame\<close>). \<open>config_ok\<close> is
  the caller's part: \<^verbatim>\<open>n_fft\<close> a power of two (below \<open>2 ^ 30\<close>, so that the last
  \<^verbatim>\<open>len <<= 1\<close> of the transform fits an \<^verbatim>\<open>int\<close>) and a window that fits the transform.
  Under both, \<^verbatim>\<open>process_frame\<close> indexes no vector out of range.
\<close>

definition power_of_two :: "nat \<Rightarrow> bool" where
  "power_of_two n = (\<exists>k<30. n = 2 ^ k)"

definition buffers_ok :: "audio_processor \<Rightarrow> bool" where
  "buffers_ok p =
     (length (window p) = window_length p \<and>
      length (window_buffer p) = window_length p \<and>
      length (previous_samples p) = nat (max 0 (int (window_length p) - hop_length p)) \<and>
      length (fft_input p) = n_fft p \<and>
      length (bit_reverse_table p) = n_fft p \<and>
      length (trig_tables p) = n_fft p div 2 \<and>
      length (mel_filter_bank p) = n_mels p * (n_fft p div 2 + 1))"

definition config_ok :: "audio_processor \<Rightarrow> bool" where
  "config_ok p = (window_length p \<le> n_fft p \<and> power_of_two (n_fft p))"

text \<open>
  The derived tables are current when running the initialisers again would not change
  them; \<open>overlap_zeros\<close> is the overlap buffer a reset leaves.
\<close>

definition tables_current :: "audio_processor \<Rightarrow> bool" where
  "tables_current p =
     (window p = window (init_window p) \<and>
      bit_reverse_table p = bit_reverse_table (init_fft p) \<and>
      trig_tables p = trig_tables (init_fft p) \<and>
      mel_filter_bank p = mel_filter_bank (init_mel_filter_bank p))"

definition overlap_zeros :: "audio_processor \<Rightarrow> real list" where
  "overlap_zeros p = replicate (nat (max 0 (int (window_length p) - hop_length p))) 0"

text \<open>
  The bin positions are finite numbers when the sample rate is not zero and the
  logarithm of \<open>hz_to_mel\<close> gets a positive argument, that is, when both frequencies lie
  above \<open>-700\<close>. There the real numbers of the model are the values the code computes,
  up to rounding.
\<close>

definition finite_bins :: "audio_processor \<Rightarrow> bool" where
  "finite_bins p = (sample_rate p \<noteq> 0 \<and> - 700 < f_min p \<and> - 700 < f_max p)"

subsection \<open>The filter bank as the specification words it\<close>

text \<open>
  The reference is written from the specification alone and shares no definition with
  the embedded code. The two scale conversions are
  \<open>hz_to_mel(f) = 2595 * log10(1 + f / 700)\<close> and
  \<open>mel_to_hz(m) = 700 * (10^(m / 2595) - 1)\<close>; the \<open>n_mels + 2\<close> mel points are evenly
  spaced between the images of \<open>f_min\<close> and \<open>f_max\<close>; each is taken back to Hz and to the
  bin position \<open>(n_fft + 1) * hz / sample_rate\<close>. The weight of filter \<open>i\<close> at bin \<open>j\<close> is
  the triangle over \<open>(left, center, right)\<close>, the centre counted in the rising branch,
  and a side of width zero contributes the weight zero.
\<close>

definition ref_hz_to_mel :: "real \<Rightarrow> real" where
  "ref_hz_to_mel f = 2595 * log 10 (1 + f / 700)"

definition ref_mel_to_hz :: "real \<Rightarrow> real" where
  "ref_mel_to_hz m = 700 * (10 powr (m / 2595) - 1)"

definition ref_mel_point :: "audio_processor \<Rightarrow> nat \<Rightarrow> real" where
  "ref_mel_point p i =
     ref_hz_to_mel (f_min p) +
     real i * ((ref_hz_to_mel (f_max p) - ref_hz_to_mel (f_min p)) / real (n_mels p + 1))"

definition ref_bin :: "audio_processor \<Rightarrow> nat \<Rightarrow> real" where
  "ref_bin p i = real (n_fft p + 1) * ref_mel_to_hz (ref_mel_point p i) / of_int (sample_rate p)"

definition ref_weight :: "audio_processor \<Rightarrow> nat \<Rightarrow> nat \<Rightarrow> real" where
  "ref_weight p i j =
     (let left = ref_bin p i; center = ref_bin p (i + 1); right = ref_bin p (i + 2)
      in if left \<le> real j \<and> real j \<le> center
         then (if center = left then 0 else (real j - left) / (center - left))
         else if center < real j \<and> real j \<le> right
         then (if right = center then 0 else (right - real j) / (right - center))
         else 0)"

subsection \<open>Example states\<close>

text \<open>
  A small processor reached through the public setters, the same after one frame, and
  the default processor with the frequency range \<open>[0, 0]\<close>.
\<close>

definition demo_processor :: audio_processor where
  "demo_processor =
     set_mel_bands 1 (set_fft_size 4 (set_hop_length 2 (set_window_length 4 new_audio_processor)))"

definition demo_after_frame :: audio_processor where
  "demo_after_frame = snd (process_frame demo_processor [3, 5])"

definition zero_band_processor :: audio_processor where
  "zero_band_processor = set_frequency_range 0 0 new_audio_processor"

subsection \<open>Sequences of calls on the scheduler\<close>

text \<open>
  The public methods of \<^verbatim>\<open>LipSyncContext\<close> as calls; a run is \<open>None\<close> when a
  \<^verbatim>\<open>process\<close> call does not return.
\<close>

datatype call =
    Process "(real \<times> real) list" int
  | SetContextSize "32 word"
  | LoadModel "(tensor \<Rightarrow> tensor) option"
  | Reset

fun run_call :: "lip_sync_context \<Rightarrow> call \<Rightarrow> lip_sync_context option" where
  "run_call c (Process audio rate) = map_option snd (process c audio rate)"
| "run_call c (SetContextSize n) = Some (set_context_size n c)"
| "run_call c (LoadModel file) = Some (snd (load_model file c))"
| "run_call c Reset = Some (lsc_reset c)"

fun run_calls :: "lip_sync_context \<Rightarrow> call list \<Rightarrow> lip_sync_context option" where
  "run_calls c [] = Some c"
| "run_calls c (x # xs) = (case run_call c x of None \<Rightarrow> None | Some c' \<Rightarrow> run_calls c' xs)"

fun nonneg_size :: "call \<Rightarrow> bool" where
  "nonneg_size (SetContextSize n) = (0 \<le> sint n)"
| "nonneg_size _ = True"

fun positive_rate :: "call \<Rightarrow> bool" where
  "positive_rate (Process audio rate) = (0 < rate)"
| "positive_rate _ = True"

text \<open>The last \<open>w\<close> values of a sequence, as the specification words the result.\<close>

definition last_values :: "nat \<Rightarrow> 'a list \<Rightarrow> 'a list" where
  "last_values w xs = drop (length xs - w) xs"

text \<open>
  Example contexts: a context whose only \<^verbatim>\<open>load_model\<close> call failed, and one with an
  engine that answers every tensor with the same three values. \<open>silence n\<close> is a block
  of \<open>n\<close> zero stereo samples.
\<close>

definition failed_load_context :: lip_sync_context where
  "failed_load_context = snd (load_model None new_lip_sync_context)"

definition three_values_context :: lip_sync_context where
  "three_values_context =
     snd (load_model (Some (\<lambda>tensor. [Some 1, Some 2, Some 3])) new_lip_sync_context)"

definition silence :: "nat \<Rightarrow> (real \<times> real) list" where
  "silence n = replicate n (0, 0)"

definition one_frame_context :: lip_sync_context where
  "one_frame_context = hop_step (three_values_context\<lparr>audio_buffer := replicate 160 0\<rparr>)"

definition demo_calls :: "call list" where
  "demo_calls =
     [LoadModel (Some (\<lambda>tensor. [])), SetContextSize 1, Process (silence 320) 48000,
      Process (silence 320) 16000, SetContextSize 0]"

definition three_values_model :: onnx_model where
  "three_values_model = \<lparr>session = Some (\<lambda>tensor. [Some 1, Some 2, Some 3])\<rparr>"

definition two_frame_context :: lip_sync_context where
  "two_frame_context =
     hop_step (hop_step (three_values_context\<lparr>audio_buffer := replicate 320 0\<rparr>))"

subsection \<open>The discrete Fourier transform\<close>

text \<open>
  The transform as the specification words it: output \<open>k\<close> is the sum over \<open>j\<close> of
  \<open>input[j] * e^(-2 * pi * i * j * k / n)\<close>.
\<close>

definition dft :: "complex list \<Rightarrow> nat \<Rightarrow> complex" where
  "dft xs k =
     (\<Sum>j<length xs. xs ! j *
        exp (- (2 * of_real pi * \<i> * of_nat j * of_nat k / of_nat (length xs))))"

text \<open>
  Names for the proof: \<open>bitrev k i\<close> reverses the low \<open>k\<close> bits of \<open>i\<close>, \<open>wp N e\<close> is the
  \<open>e\<close>-th power of the principal \<open>N\<close>-th root of unity \<open>e^(-2 * pi * i / N)\<close>, and
  \<open>sub_dft data N r q j\<close> is output \<open>j\<close> of the transform of the \<open>N\<close> inputs at
  \<open>r, r + q, r + 2 * q, \<dots>\<close>.
\<close>

fun bitrev :: "nat \<Rightarrow> nat \<Rightarrow> nat" where
  "bitrev 0 i = 0"
| "bitrev (Suc k) i = 2 ^ k * (i mod 2) + bitrev k (i div 2)"

definition wp :: "nat \<Rightarrow> nat \<Rightarrow> complex" where
  "wp N e = cis (- 2 * pi * real e / real N)"

definition sub_dft :: "complex list \<Rightarrow> nat \<Rightarrow> nat \<Rightarrow> nat \<Rightarrow> nat \<Rightarrow> complex" where
  "sub_dft data N r q j = (\<Sum>m<N. data ! (r + m * q) * wp N (j * m))"

text \<open>
  One pass of the loops over \<open>i\<close> and \<open>j\<close> for a butterfly span \<open>2 * half\<close>, read
  position by position.
\<close>

definition stage :: "complex list \<Rightarrow> nat \<Rightarrow> nat \<Rightarrow> complex list \<Rightarrow> nat \<Rightarrow> complex" where
  "stage trig half step d x =
     (let r = x mod (2 * half)
      in if r < half then d ! x + d ! (x + half) * trig ! (r * step)
         else d ! (x - half) - d ! x * trig ! ((r - half) * step))"

text \<open>
  The loop invariant of the stages for \<open>n = 2 ^ k\<close>: after the pass with span \<open>2 ^ s\<close>,
  block \<open>b\<close> holds the transform of the \<open>2 ^ s\<close> inputs whose index is \<open>bitrev (k - s) b\<close>
  modulo \<open>2 ^ (k - s)\<close>.
\<close>

definition stage_inv :: "complex list \<Rightarrow> nat \<Rightarrow> nat \<Rightarrow> complex list \<Rightarrow> bool" where
  "stage_inv data k s D =
     (length D = 2 ^ k \<and>
      (\<forall>b<2 ^ (k - s). \<forall>j<2 ^ s.
         D ! (b * 2 ^ s + j) = sub_dft data (2 ^ s) (bitrev (k - s) b) (2 ^ (k - s)) j))"

section \<open>Proofs\<close>

subsection \<open>Counted loops over the window and overlap buffers\<close>

lemma nth_upd: "xs[i := x] ! m = (if i = m \<and> m < length xs then x else xs ! m)"
  by (cases "i < length xs") (auto simp: nth_list_update list_update_beyond)

lemma copy_loop_length:
  "length (fold (\<lambda>i a. if off + i < bound then a[off + i := src ! i] else a) [0..<k] a) = length a"
  by (induction k) simp_all

lemma copy_loop_nth:
  "fold (\<lambda>i a. if off + i < bound then a[off + i := src ! i] else a) [0..<k] a ! m =
     (if off \<le> m \<and> m < off + k \<and> m < bound \<and> m < length a then src ! (m - off) else a ! m)"
proof (induction k)
  case 0
  then show ?case by auto
next
  case (Suc k)
  then show ?case by (auto simp: copy_loop_length nth_upd less_Suc_eq)
qed

lemma overlap_loop_length:
  "length (fold (\<lambda>i wb. wb[i := src ! i]) [0..<k] a) = length a"
  by (induction k) simp_all

lemma overlap_loop_nth:
  "fold (\<lambda>i wb. wb[i := src ! i]) [0..<k] a ! m = (if m < k \<and> m < length a then src ! m else a ! m)"
proof (induction k)
  case 0
  then show ?case by auto
next
  case (Suc k)
  then show ?case by (auto simp: overlap_loop_length nth_upd less_Suc_eq)
qed

lemma fill_window_buffer_length:
  "length (fill_window_buffer p xs) = length (window_buffer p)"
  by (simp add: fill_window_buffer_def Let_def copy_loop_length overlap_loop_length)

lemma fill_window_buffer_nth:
  "fill_window_buffer p xs ! m =
     (let ol = length (previous_samples p) in
      if m < length (window_buffer p) then
        if ol \<le> m \<and> m < ol + nat (hop_length p) \<and> m < window_length p then xs ! (m - ol)
        else if m < ol then previous_samples p ! m else window_buffer p ! m
      else window_buffer p ! m)"
  by (simp add: fill_window_buffer_def Let_def copy_loop_nth overlap_loop_nth overlap_loop_length)

lemma next_loop_length:
  "length (fold (\<lambda>i prev. if h + int i < w then prev[i := wb ! nat (h + int i)] else prev[i := 0])
       [0..<k] a) = length a"
  by (induction k) simp_all

lemma next_loop_nth:
  "m < length a \<Longrightarrow>
   fold (\<lambda>i prev. if h + int i < w then prev[i := wb ! nat (h + int i)] else prev[i := 0])
       [0..<k] a ! m = (if m < k then (if h + int m < w then wb ! nat (h + int m) else 0) else a ! m)"
proof (induction k)
  case 0
  then show ?case by auto
next
  case (Suc k)
  then show ?case by (auto simp: next_loop_length nth_list_update less_Suc_eq)
qed

lemma next_previous_samples_length:
  "length (next_previous_samples p wb) = length (previous_samples p)"
  by (simp add: next_previous_samples_def Let_def next_loop_length)

lemma next_previous_samples_nth:
  "m < length (previous_samples p) \<Longrightarrow>
   next_previous_samples p wb ! m =
     (if hop_length p + int m < int (window_length p) then wb ! nat (hop_length p + int m) else 0)"
  by (simp add: next_previous_samples_def Let_def next_loop_nth)

subsection \<open>Fields after the initialisers; the size invariant; claim C1\<close>

declare fft_groups.simps [simp del] fft_stages.simps [simp del] fft_levels.simps [simp del]
  trim_front.simps [simp del] process_hops.simps [simp del]

lemma init_window_fields [simp]:
  "sample_rate (init_window p) = sample_rate p"
  "hop_length (init_window p) = hop_length p"
  "window_length (init_window p) = window_length p"
  "n_fft (init_window p) = n_fft p"
  "n_mels (init_window p) = n_mels p"
  "f_min (init_window p) = f_min p"
  "f_max (init_window p) = f_max p"
  "previous_samples (init_window p) = previous_samples p"
  "mel_filter_bank (init_window p) = mel_filter_bank p"
  "fft_input (init_window p) = fft_input p"
  "bit_reverse_table (init_window p) = bit_reverse_table p"
  "trig_tables (init_window p) = trig_tables p"
  "length (window (init_window p)) = window_length p"
  "length (window_buffer (init_window p)) = window_length p"
  by (simp_all add: init_window_def resize_def)

lemma reset_fields [simp]:
  "sample_rate (reset p) = sample_rate p"
  "hop_length (reset p) = hop_length p"
  "window_length (reset p) = window_length p"
  "n_fft (reset p) = n_fft p"
  "n_mels (reset p) = n_mels p"
  "f_min (reset p) = f_min p"
  "f_max (reset p) = f_max p"
  "window (reset p) = window p"
  "window_buffer (reset p) = window_buffer p"
  "mel_filter_bank (reset p) = mel_filter_bank p"
  "fft_input (reset p) = fft_input p"
  "bit_reverse_table (reset p) = bit_reverse_table p"
  "trig_tables (reset p) = trig_tables p"
  by (simp_all add: reset_def Let_def)

lemma reset_previous_samples:
  "previous_samples (reset p) = replicate (nat (max 0 (int (window_length p) - hop_length p))) 0"
  by (simp add: reset_def Let_def max_def)

lemma init_fft_fields [simp]:
  "sample_rate (init_fft p) = sample_rate p"
  "hop_length (init_fft p) = hop_length p"
  "window_length (init_fft p) = window_length p"
  "n_fft (init_fft p) = n_fft p"
  "n_mels (init_fft p) = n_mels p"
  "f_min (init_fft p) = f_min p"
  "f_max (init_fft p) = f_max p"
  "window (init_fft p) = window p"
  "window_buffer (init_fft p) = window_buffer p"
  "previous_samples (init_fft p) = previous_samples p"
  "mel_filter_bank (init_fft p) = mel_filter_bank p"
  "length (fft_input (init_fft p)) = n_fft p"
  "length (bit_reverse_table (init_fft p)) = n_fft p"
  "length (trig_tables (init_fft p)) = n_fft p div 2"
  by (simp_all add: init_fft_def Let_def resize_def)

lemma fill_rows_length: "length (fill_rows rows cols f a) = length a"
proof -
  have inner: "length (fold (\<lambda>j a. a[i * cols + j := f i j]) [0..<k] b) = length b" for i k b
    by (induction k) simp_all
  have "length (fold (\<lambda>i a. fold (\<lambda>j a. a[i * cols + j := f i j]) [0..<cols] a) [0..<r] a) = length a" for r
    by (induction r) (simp_all add: inner)
  then show ?thesis by (simp add: fill_rows_def)
qed

lemma init_mel_filter_bank_fields [simp]:
  "sample_rate (init_mel_filter_bank p) = sample_rate p"
  "hop_length (init_mel_filter_bank p) = hop_length p"
  "window_length (init_mel_filter_bank p) = window_length p"
  "n_fft (init_mel_filter_bank p) = n_fft p"
  "n_mels (init_mel_filter_bank p) = n_mels p"
  "f_min (init_mel_filter_bank p) = f_min p"
  "f_max (init_mel_filter_bank p) = f_max p"
  "window (init_mel_filter_bank p) = window p"
  "window_buffer (init_mel_filter_bank p) = window_buffer p"
  "previous_samples (init_mel_filter_bank p) = previous_samples p"
  "fft_input (init_mel_filter_bank p) = fft_input p"
  "bit_reverse_table (init_mel_filter_bank p) = bit_reverse_table p"
  "trig_tables (init_mel_filter_bank p) = trig_tables p"
  "length (mel_filter_bank (init_mel_filter_bank p)) = n_mels p * (n_fft p div 2 + 1)"
  by (simp_all add: init_mel_filter_bank_def Let_def fill_rows_length)

lemma butterfly_length [simp]: "length (butterfly trig h st i j d) = length d"
  by (simp add: butterfly_def Let_def)

lemma fold_butterfly_length [simp]: "length (fold (butterfly trig h st i) js d) = length d"
  by (induction js arbitrary: d) simp_all

lemma fft_groups_length [simp]: "length (fft_groups trig n len i d) = length d"
  by (induction trig n len i d rule: fft_groups.induct) (subst fft_groups.simps, simp)

lemma fft_stages_length [simp]: "length (fft_stages trig n len d) = length d"
  by (induction trig n len d rule: fft_stages.induct) (subst fft_stages.simps, simp)

lemma swap_step_length [simp]: "length (swap_step brt i d) = length d"
  by (simp add: swap_step_def)

lemma fold_swap_step_length [simp]: "length (fold (swap_step brt) js d) = length d"
  by (induction js arbitrary: d) simp_all

lemma perform_fft_length [simp]: "length (perform_fft p d) = length d"
  by (simp add: perform_fft_def Let_def)

lemma windowed_fft_input_length:
  assumes "windowed_fft_input p wb = Some f"
  shows "length f = length (fft_input p)"
proof -
  have "fold (\<lambda>i f. case (f, window p ! i) of
                    (Some f, Fin w) \<Rightarrow> Some (f[i := Complex (wb ! i * w) 0])
                  | _ \<Rightarrow> None) [0..<k] (Some a) = Some f \<Longrightarrow> length f = length a" for k a f
    by (induction k arbitrary: f) (auto split: option.splits fval.splits)
  then show ?thesis using assms by (simp add: windowed_fft_input_def)
qed

lemma buffers_ok_new: "buffers_ok new_audio_processor"
  by (simp add: buffers_ok_def new_audio_processor_def reset_previous_samples)

lemma buffers_ok_setters:
  assumes "buffers_ok p"
  shows "buffers_ok (set_sample_rate r p)" "buffers_ok (set_fft_size n p)"
    "buffers_ok (set_hop_length h p)" "buffers_ok (set_window_length w p)"
    "buffers_ok (set_mel_bands m p)" "buffers_ok (set_frequency_range lo hi p)"
    "buffers_ok (reset p)"
  using assms
  by (simp_all add: buffers_ok_def set_sample_rate_def set_fft_size_def set_hop_length_def
      set_window_length_def set_mel_bands_def set_frequency_range_def reset_previous_samples)

lemma buffers_ok_process_frame:
  assumes "buffers_ok p"
  shows "buffers_ok (snd (process_frame p xs))"
  using assms
  by (simp add: buffers_ok_def process_frame_def Let_def fill_window_buffer_length
      next_previous_samples_length windowed_fft_input_length split: option.splits)

text \<open>
  Claim C1. A call of \<^verbatim>\<open>process_frame\<close> whose input length differs from \<^verbatim>\<open>hop_length\<close>
  returns the empty array and the processor it was given: no member changes, and in
  particular the overlap buffer \<^verbatim>\<open>previous_samples\<close> holds the values it held before.
\<close>

theorem process_frame_size_mismatch:
  assumes "int (length p_samples) \<noteq> hop_length p"
  shows "fst (process_frame p p_samples) = [] \<and> snd (process_frame p p_samples) = p \<and>
         previous_samples (snd (process_frame p p_samples)) = previous_samples p"
  using assms by (simp add: process_frame_def)

subsection \<open>The window buffer and the overlap buffer; claim C2\<close>

lemma demo_processor_fields [simp]:
  "hop_length demo_processor = 2" "window_length demo_processor = 4"
  "n_fft demo_processor = 4" "n_mels demo_processor = 1"
  "previous_samples demo_processor = [0, 0]"
  by (simp_all add: demo_processor_def set_mel_bands_def set_fft_size_def set_hop_length_def
      set_window_length_def reset_previous_samples numeral_2_eq_2)

lemma buffers_ok_demo: "buffers_ok demo_processor"
  unfolding demo_processor_def by (intro buffers_ok_setters buffers_ok_new)

lemma config_ok_demo: "config_ok demo_processor"
proof -
  have "(2::nat) < 30 \<and> (4::nat) = 2 ^ 2" by simp
  then have "power_of_two 4" unfolding power_of_two_def by blast
  then show ?thesis by (simp add: config_ok_def)
qed

lemma process_frame_accepts:
  assumes "int (length xs) = hop_length p"
  shows "window_buffer (snd (process_frame p xs)) = fill_window_buffer p xs"
    and "previous_samples (snd (process_frame p xs)) =
         next_previous_samples p (fill_window_buffer p xs)"
  using assms by (simp_all add: process_frame_def Let_def split: option.splits)

lemma process_frame_buffers:
  assumes ok: "buffers_ok p" and len: "int (length p_samples) = hop_length p"
  shows "window_buffer (snd (process_frame p p_samples)) =
           take (window_length p) (previous_samples p @ p_samples)"
    and "previous_samples (snd (process_frame p p_samples)) =
           take (length (previous_samples p))
             (drop (length p_samples) (window_buffer (snd (process_frame p p_samples)))
              @ replicate (length (previous_samples p)) 0)"
proof -
  let ?ol = "length (previous_samples p)"
  let ?wb = "fill_window_buffer p p_samples"
  have hop: "nat (hop_length p) = length p_samples" using len by simp
  have wl: "length (window_buffer p) = window_length p"
    and ol: "?ol = nat (max 0 (int (window_length p) - hop_length p))"
    using ok by (simp_all add: buffers_ok_def)
  have cover: "window_length p \<le> ?ol + length p_samples" using ol len by linarith
  have olw: "?ol \<le> window_length p" using ol len by linarith
  have wb: "?wb = take (window_length p) (previous_samples p @ p_samples)"
  proof (rule nth_equalityI)
    show "length ?wb = length (take (window_length p) (previous_samples p @ p_samples))"
      using cover by (simp add: fill_window_buffer_length wl)
  next
    fix m assume "m < length ?wb"
    then have m: "m < window_length p" by (simp add: fill_window_buffer_length wl)
    then show "?wb ! m = take (window_length p) (previous_samples p @ p_samples) ! m"
      using cover by (auto simp: fill_window_buffer_nth Let_def wl hop nth_append)
  qed
  have prev: "next_previous_samples p ?wb =
      take ?ol (drop (length p_samples) ?wb @ replicate ?ol 0)"
  proof (rule nth_equalityI)
    show "length (next_previous_samples p ?wb) =
        length (take ?ol (drop (length p_samples) ?wb @ replicate ?ol 0))"
      by (simp add: next_previous_samples_length)
  next
    fix m assume "m < length (next_previous_samples p ?wb)"
    then have m: "m < ?ol" by (simp add: next_previous_samples_length)
    have "nat (hop_length p + int m) = length p_samples + m"
      and "hop_length p + int m < int (window_length p) \<longleftrightarrow> length p_samples + m < window_length p"
      using len by auto
    then show "next_previous_samples p ?wb ! m =
        take ?ol (drop (length p_samples) ?wb @ replicate ?ol 0) ! m"
      using m by (auto simp: next_previous_samples_nth nth_append fill_window_buffer_length wl)
  qed
  show "window_buffer (snd (process_frame p p_samples)) =
      take (window_length p) (previous_samples p @ p_samples)"
    unfolding process_frame_accepts [OF len] by (rule wb)
  show "previous_samples (snd (process_frame p p_samples)) =
      take (length (previous_samples p))
        (drop (length p_samples) (window_buffer (snd (process_frame p p_samples)))
         @ replicate (length (previous_samples p)) 0)"
    unfolding process_frame_accepts [OF len] by (rule prev)
qed


text \<open>
  Claim C2. For a call of \<^verbatim>\<open>process_frame\<close> with exactly \<^verbatim>\<open>hop_length\<close> samples, on a
  processor whose vectors have the sizes the class keeps (\<open>buffers_ok\<close>) and whose
  configuration is valid (\<open>config_ok\<close>), with \<open>overlap_len\<close> the length of the current
  overlap buffer: the window buffer is the overlap
  buffer followed by the new samples, cut at \<^verbatim>\<open>window_length\<close>; and the overlap buffer kept
  for the next call is the slice of the window buffer that starts at \<^verbatim>\<open>hop_length\<close> and is
  \<open>overlap_len\<close> long, with zeros for the positions past the window buffer's end.
\<close>

theorem process_frame_window_and_overlap:
  assumes "buffers_ok p" "config_ok p" "int (length p_samples) = hop_length p"
  shows "let overlap_len = length (previous_samples p);
             p' = snd (process_frame p p_samples);
             wb = window_buffer p'
         in wb = take (window_length p) (previous_samples p @ p_samples) \<and>
            previous_samples p' =
              take overlap_len (drop (length p_samples) wb @ replicate overlap_len 0)"
  unfolding Let_def
  using process_frame_buffers [OF assms(1) assms(3)] by (intro conjI)

theorem process_frame_window_and_overlap_witness:
  "buffers_ok demo_processor \<and> config_ok demo_processor \<and>
   int (length [3, 5 :: real]) = hop_length demo_processor \<and>
   window_buffer (snd (process_frame demo_processor [3, 5])) = [0, 0, 3, 5] \<and>
   previous_samples (snd (process_frame demo_processor [3, 5])) = [3, 5]"
  using process_frame_window_and_overlap [OF buffers_ok_demo config_ok_demo, of "[3, 5]"]
  by (simp add: Let_def buffers_ok_demo config_ok_demo)

theorem process_frame_size_mismatch_witness:
  "int (length [3 :: real]) \<noteq> hop_length demo_processor \<and>
   fst (process_frame demo_processor [3]) = [] \<and>
   snd (process_frame demo_processor [3]) = demo_processor \<and>
   previous_samples (snd (process_frame demo_processor [3])) = [0, 0]"
  using process_frame_size_mismatch [of "[3]" demo_processor] by simp

subsection \<open>The filter bank; claims C8 and C7\<close>

lemma fill_row_nth:
  "fold (\<lambda>j a. a[off + j := g j]) [0..<k] b ! m =
     (if off \<le> m \<and> m < off + k \<and> m < length b then g (m - off) else b ! m)"
proof (induction k)
  case 0
  then show ?case by auto
next
  case (Suc k)
  have len: "length (fold (\<lambda>j a. a[off + j := g j]) [0..<k] b) = length b" for k
    by (induction k) simp_all
  from Suc show ?case by (auto simp: len nth_upd less_Suc_eq)
qed

lemma fill_row_length: "length (fold (\<lambda>j a. a[off + j := g j]) [0..<k] b) = length b"
  by (induction k) simp_all

lemma fill_rows_nth_aux:
  assumes "0 < cols"
  shows "fold (\<lambda>i a. fold (\<lambda>j a. a[i * cols + j := f i j]) [0..<cols] a) [0..<r] a ! m =
     (if m < r * cols \<and> m < length a then f (m div cols) (m mod cols) else a ! m)"
proof (induction r)
  case 0
  then show ?case by simp
next
  case (Suc r)
  have len: "length (fold (\<lambda>i a. fold (\<lambda>j a. a[i * cols + j := f i j]) [0..<cols] a) [0..<r] a)
      = length a" for r
    by (induction r) (simp_all add: fill_row_length)
  have dm: "m div cols = r \<and> m mod cols = m - r * cols" if "r * cols \<le> m" "m < r * cols + cols"
  proof -
    have "m = r * cols + (m - r * cols)" "m - r * cols < cols" using that by auto
    then show ?thesis
      by (metis div_mult_self3 div_less add_cancel_right_right assms less_numeral_extra(3)
          mod_less mod_mult_self3)
  qed
  show ?case
    using Suc dm by (auto simp: fill_row_nth len)
qed

lemma fill_rows_nth:
  assumes "i < rows" "j < cols" "length a = rows * cols"
  shows "fill_rows rows cols f a ! (i * cols + j) = f i j"
proof -
  have "i * cols + j < rows * cols"
  proof -
    have "i * cols + j < i * cols + cols" using assms by simp
    also have "\<dots> = Suc i * cols" by simp
    also have "\<dots> \<le> rows * cols" using assms by (intro mult_le_mono1) simp
    finally show ?thesis .
  qed
  moreover have "0 < cols" using assms by simp
  ultimately show ?thesis
    using assms by (simp add: fill_rows_def fill_rows_nth_aux)
qed

lemma bin_points_nth:
  assumes "i < n_mels p + 2"
  shows "bin_points p ! i =
      real (n_fft p + 1) * mel_to_hz (hz_to_mel (f_min p) +
        (hz_to_mel (f_max p) - hz_to_mel (f_min p)) * real i / real (n_mels p + 1)) /
      of_int (sample_rate p)"
proof -
  have "bin_points p ! i =
      real (n_fft p + 1) * mel_to_hz (hz_to_mel (f_min p) +
        (hz_to_mel (f_max p) - hz_to_mel (f_min p)) * real (0 + i) / real (n_mels p + 1)) /
      of_int (sample_rate p)"
    unfolding bin_points_def Let_def using assms by (subst nth_map_upt) simp_all
  then show ?thesis by simp
qed

lemma bin_points_ref:
  assumes "i < n_mels p + 2"
  shows "bin_points p ! i = ref_bin p i"
  by (simp add: bin_points_nth [OF assms] ref_bin_def ref_mel_point_def hz_to_mel_def
      mel_to_hz_def ref_hz_to_mel_def ref_mel_to_hz_def mult.commute)

lemma bin_points_length: "length (bin_points p) = n_mels p + 2"
  by (simp add: bin_points_def Let_def)

lemma mel_filter_bank_nth:
  assumes "i < n_mels p" "j < n_fft p div 2 + 1"
  shows "mel_filter_bank (init_mel_filter_bank p) ! (i * (n_fft p div 2 + 1) + j) =
         mel_weight j (bin_points p ! i) (bin_points p ! (i + 1)) (bin_points p ! (i + 2))"
proof -
  have "mel_filter_bank (init_mel_filter_bank p) =
      fill_rows (n_mels p) (n_fft p div 2 + 1)
        (\<lambda>i j. mel_weight j (bin_points p ! i) (bin_points p ! (i + 1)) (bin_points p ! (i + 2)))
        (replicate (n_mels p * (n_fft p div 2 + 1)) (Fin 0))"
    by (simp add: init_mel_filter_bank_def Let_def)
  then show ?thesis
    using fill_rows_nth [OF assms, of "replicate (n_mels p * (n_fft p div 2 + 1)) (Fin 0)"]
    by simp
qed

lemma mel_weight_ref:
  assumes "i < n_mels p"
  shows "mel_weight j (bin_points p ! i) (bin_points p ! (i + 1)) (bin_points p ! (i + 2)) =
         (if ref_bin p i = ref_bin p (i + 1) \<and> real j = ref_bin p i then NaN
          else Fin (ref_weight p i j))"
proof -
  have "bin_points p ! i = ref_bin p i" "bin_points p ! (i + 1) = ref_bin p (i + 1)"
    "bin_points p ! (i + 2) = ref_bin p (i + 2)"
    using assms by (simp_all only: bin_points_ref add_less_mono1 trans_less_add1)
  then show ?thesis
    by (auto simp: mel_weight_def ref_weight_def fdiv_def Let_def)
qed

lemma ref_hz_to_mel_inj:
  assumes "- 700 < a" "- 700 < b" "ref_hz_to_mel a = ref_hz_to_mel b"
  shows "a = b"
proof -
  have pos: "0 < 1 + a / 700" "0 < 1 + b / 700" using assms(1,2) by simp_all
  have "log 10 (1 + a / 700) = log 10 (1 + b / 700)"
    using assms(3) by (simp add: ref_hz_to_mel_def)
  then have "1 + a / 700 = 1 + b / 700"
    using pos by (simp add: log_def)
  then show ?thesis by simp
qed

lemma ref_mel_to_hz_inj:
  assumes "ref_mel_to_hz x = ref_mel_to_hz y"
  shows "x = y"
proof -
  have "(10::real) powr (x / 2595) = 10 powr (y / 2595)"
    using assms by (simp add: ref_mel_to_hz_def)
  then have "x / 2595 = y / 2595" by (simp add: powr_inj)
  then show ?thesis by simp
qed

lemma ref_bin_distinct:
  assumes "finite_bins p" "f_min p \<noteq> f_max p"
  shows "ref_bin p i \<noteq> ref_bin p (i + 1)"
proof
  assume eq: "ref_bin p i = ref_bin p (i + 1)"
  have sr: "sample_rate p \<noteq> 0" and lo: "- 700 < f_min p" and hi: "- 700 < f_max p"
    using assms(1) by (simp_all add: finite_bins_def)
  have "ref_mel_to_hz (ref_mel_point p i) = ref_mel_to_hz (ref_mel_point p (i + 1))"
    using eq sr by (simp add: ref_bin_def)
  then have "ref_mel_point p i = ref_mel_point p (i + 1)" by (rule ref_mel_to_hz_inj)
  then have "ref_hz_to_mel (f_max p) = ref_hz_to_mel (f_min p)"
    by (simp add: ref_mel_point_def algebra_simps)
  then show False using ref_hz_to_mel_inj [OF hi lo] assms(2) by simp
qed


lemma new_audio_processor_config [simp]:
  "sample_rate new_audio_processor = 16000" "hop_length new_audio_processor = 160"
  "window_length new_audio_processor = 400" "n_fft new_audio_processor = 1024"
  "n_mels new_audio_processor = 80" "f_min new_audio_processor = 50"
  "f_max new_audio_processor = 8000"
  by (simp_all add: new_audio_processor_def member_defaults_def)


lemma mel_weight_NaN_iff: "mel_weight j l c r = NaN \<longleftrightarrow> l = c \<and> real j = l"
  by (auto simp: mel_weight_def fdiv_def)

lemma mel_weight_not_Inf: "mel_weight j l c r \<noteq> Inf"
  by (auto simp: mel_weight_def fdiv_def)

lemma mel_weight_flat_falling: "c = r \<Longrightarrow> c < real j \<Longrightarrow> mel_weight j l c r = Fin 0"
  by (auto simp: mel_weight_def fdiv_def)

text \<open>
  Claim C7, as amended. The code has no guard for a zero-width interval. For a
  configuration with finite bin positions, building the filter bank never yields an
  infinite entry; the entry of filter \<open>i\<close> at bin \<open>j\<close> is NaN
  exactly when \<open>left = center = j\<close>, where the rising branch divides \<open>0\<close> by \<open>0\<close>; and a
  zero-width falling side (\<open>center = right\<close>) gives weight \<open>0\<close> to every bin above the
  centre, with no division by zero.
\<close>

theorem mel_filter_bank_division_by_zero:
  assumes "finite_bins p" "i < n_mels p" "j < n_fft p div 2 + 1"
  shows "let w = mel_filter_bank (init_mel_filter_bank p) ! (i * (n_fft p div 2 + 1) + j);
             left = bin_points p ! i; center = bin_points p ! (i + 1);
             right = bin_points p ! (i + 2)
         in w \<noteq> Inf \<and> (w = NaN \<longleftrightarrow> left = center \<and> real j = left) \<and>
            (center = right \<and> center < real j \<longrightarrow> w = Fin 0)"
proof -
  let ?w = "mel_filter_bank (init_mel_filter_bank p) ! (i * (n_fft p div 2 + 1) + j)"
  let ?left = "bin_points p ! i" and ?center = "bin_points p ! (i + 1)"
  let ?right = "bin_points p ! (i + 2)"
  have w: "?w = mel_weight j ?left ?center ?right"
    by (rule mel_filter_bank_nth [OF assms(2,3)])
  have "?w \<noteq> Inf" by (simp only: w mel_weight_not_Inf not_False_eq_True)
  moreover have "?w = NaN \<longleftrightarrow> ?left = ?center \<and> real j = ?left"
    by (simp only: w mel_weight_NaN_iff)
  moreover have "?center = ?right \<and> ?center < real j \<longrightarrow> ?w = Fin 0"
    by (simp only: w) (blast intro: mel_weight_flat_falling)
  ultimately show ?thesis by (simp only: Let_def) blast
qed

theorem mel_filter_bank_division_by_zero_witness:
  "finite_bins zero_band_processor \<and>
   (0::nat) < n_mels zero_band_processor \<and> (0::nat) < n_fft zero_band_processor div 2 + 1 \<and>
   mel_filter_bank (init_mel_filter_bank zero_band_processor) ! 0 = NaN \<and>
   mel_filter_bank (init_mel_filter_bank zero_band_processor) ! 1 = Fin 0"
proof -
  have cfg: "n_mels zero_band_processor = 80" "n_fft zero_band_processor = 1024"
    "f_min zero_band_processor = 0" "f_max zero_band_processor = 0"
    "sample_rate zero_band_processor = 16000"
    by (simp_all add: zero_band_processor_def set_frequency_range_def)
  have bins: "bin_points zero_band_processor ! i = 0" if "i < 82" for i
    using that by (simp add: bin_points_nth cfg hz_to_mel_def mel_to_hz_def)
  have fin: "finite_bins zero_band_processor" by (simp add: finite_bins_def cfg)
  show ?thesis
    using mel_filter_bank_division_by_zero [OF fin, of 0 0]
      mel_filter_bank_division_by_zero [OF fin, of 0 1] fin
    by (simp add: cfg bins Let_def)
qed

text \<open>
  Claim C7 as stated fails: with the frequency range \<open>[0, 0]\<close> every bin position is
  \<open>0\<close>, so filter \<open>0\<close> has \<open>left = center\<close>, and its entry at bin \<open>0\<close> is \<open>0 / 0\<close>, NaN.
\<close>

theorem mel_filter_bank_NaN_counterexample:
  "finite_bins zero_band_processor \<and>
   bin_points zero_band_processor ! 0 = bin_points zero_band_processor ! 1 \<and>
   mel_filter_bank zero_band_processor ! 0 = NaN"
proof -
  have cfg: "n_mels new_audio_processor = 80" "n_fft new_audio_processor = 1024" by simp_all
  let ?q = "new_audio_processor\<lparr>f_min := 0, f_max := 0\<rparr>"
  have bins: "bin_points ?q ! i = 0" if "i < 82" for i
    using that by (simp add: bin_points_nth hz_to_mel_def mel_to_hz_def)
  have "mel_filter_bank zero_band_processor ! (0 * (n_fft ?q div 2 + 1) + 0) =
      mel_weight 0 (bin_points ?q ! 0) (bin_points ?q ! (0 + 1)) (bin_points ?q ! (0 + 2))"
    unfolding zero_band_processor_def set_frequency_range_def
    by (rule mel_filter_bank_nth) simp_all
  then have "mel_filter_bank zero_band_processor ! 0 = NaN"
    by (simp add: bins mel_weight_NaN_iff)
  moreover have "bin_points zero_band_processor ! 0 = bin_points zero_band_processor ! 1"
    by (simp add: zero_band_processor_def set_frequency_range_def bin_points_def Let_def
        hz_to_mel_def mel_to_hz_def nth_append)
  moreover have "finite_bins zero_band_processor"
    by (simp add: finite_bins_def zero_band_processor_def set_frequency_range_def)
  ultimately show ?thesis by simp
qed

lemma zero_band_processor_config [simp]:
  "sample_rate zero_band_processor = 16000" "n_fft zero_band_processor = 1024"
  "n_mels zero_band_processor = 80" "f_min zero_band_processor = 0"
  "f_max zero_band_processor = 0"
  by (simp_all add: zero_band_processor_def set_frequency_range_def)


subsection \<open>The setters; claim C9\<close>

lemma window_init_window:
  "window (init_window p) =
     map (\<lambda>i. case fdiv (2 * pi * real i) (of_int (int (window_length p) - 1)) of
                Fin angle \<Rightarrow> Fin (0.5 * (1 - cos angle)) | _ \<Rightarrow> NaN)
       [0..<window_length p]"
  by (simp add: init_window_def)

lemma tables_init_fft:
  "bit_reverse_table (init_fft p) = map (\<lambda>i. bit_reverse (fft_levels (n_fft p) 0) 0 i) [0..<n_fft p]"
  "trig_tables (init_fft p) = map (\<lambda>i. Complex (cos (- 2 * pi * real i / real (n_fft p)))
      (sin (- 2 * pi * real i / real (n_fft p)))) [0..<n_fft p div 2]"
  by (simp_all add: init_fft_def Let_def)

lemma bank_init_mel_filter_bank:
  "mel_filter_bank (init_mel_filter_bank p) =
     fill_rows (n_mels p) (n_fft p div 2 + 1)
       (\<lambda>i j. mel_weight j (bin_points p ! i) (bin_points p ! (i + 1)) (bin_points p ! (i + 2)))
       (replicate (n_mels p * (n_fft p div 2 + 1)) (Fin 0))"
  by (simp add: init_mel_filter_bank_def Let_def)

lemma bin_points_cong:
  assumes "f_min p = f_min q" "f_max p = f_max q" "n_mels p = n_mels q" "n_fft p = n_fft q"
    "sample_rate p = sample_rate q"
  shows "bin_points p = bin_points q"
  using assms by (simp add: bin_points_def)

lemma tables_cong:
  assumes "f_min p = f_min q" "f_max p = f_max q" "n_mels p = n_mels q" "n_fft p = n_fft q"
    "sample_rate p = sample_rate q" "window_length p = window_length q"
  shows "window (init_window p) = window (init_window q)"
    "bit_reverse_table (init_fft p) = bit_reverse_table (init_fft q)"
    "trig_tables (init_fft p) = trig_tables (init_fft q)"
    "mel_filter_bank (init_mel_filter_bank p) = mel_filter_bank (init_mel_filter_bank q)"
  using assms bin_points_cong [OF assms(1-5)]
  by (simp_all add: window_init_window tables_init_fft bank_init_mel_filter_bank)

lemma bin_points_derived [simp]:
  "bin_points (init_mel_filter_bank p) = bin_points p"
  "bin_points (init_fft p) = bin_points p"
  "bin_points (init_window p) = bin_points p"
  "bin_points (reset p) = bin_points p"
  by (simp_all add: bin_points_def)

lemma init_window_window_buffer: "window_buffer (init_window p) = resize (window_length p) 0 (window_buffer p)"
  by (simp add: init_window_def)

lemma tables_current_new: "tables_current new_audio_processor"
  by (simp add: tables_current_def new_audio_processor_def window_init_window tables_init_fft
      bank_init_mel_filter_bank)

lemma tables_current_process_frame:
  "tables_current p \<Longrightarrow> tables_current (snd (process_frame p xs))"
  by (simp add: tables_current_def process_frame_def Let_def window_init_window tables_init_fft
      bank_init_mel_filter_bank bin_points_def split: option.splits)

lemma window_coefficient:
  assumes "i < window_length p" "window_length p \<noteq> 1"
  shows "window (init_window p) ! i =
         Fin (0.5 * (1 - cos (2 * pi * real i / (real (window_length p) - 1))))"
proof -
  have "real_of_int (int (window_length p) - 1) \<noteq> 0" using assms(2) by simp
  then show ?thesis
    using assms(1) by (simp add: window_init_window fdiv_def)
qed

lemma window_one_sample:
  assumes "window_length p = 1"
  shows "window (init_window p) = [NaN]"
  using assms by (simp add: window_init_window fdiv_def)

lemma windowed_fft_input_finite:
  assumes "\<And>i. i < window_length p \<Longrightarrow> \<exists>w. window p ! i = Fin w"
  shows "\<exists>f. windowed_fft_input p wb = Some f"
proof -
  have "\<exists>f. fold (\<lambda>i f. case (f, window p ! i) of
                    (Some f, Fin w) \<Rightarrow> Some (f[i := Complex (wb ! i * w) 0])
                  | _ \<Rightarrow> None) [0..<k] (Some a) = Some f" if "k \<le> window_length p" for k a
    using that
  proof (induction k)
    case 0
    then show ?case by simp
  next
    case (Suc k)
    then obtain f where "fold (\<lambda>i f. case (f, window p ! i) of
                    (Some f, Fin w) \<Rightarrow> Some (f[i := Complex (wb ! i * w) 0])
                  | _ \<Rightarrow> None) [0..<k] (Some a) = Some f"
      by auto
    moreover obtain w where "window p ! k = Fin w" using assms [of k] Suc.prems by auto
    ultimately show ?case by simp
  qed
  then show ?thesis by (simp add: windowed_fft_input_def)
qed

text \<open>
  With current tables the transform gets a finite input for every window length but
  \<open>1\<close>; a window of one sample makes every feature NaN.
\<close>

lemma windowed_fft_input_defined:
  assumes "tables_current p" "window_length p \<noteq> 1"
  shows "\<exists>f. windowed_fft_input p wb = Some f"
proof (rule windowed_fft_input_finite)
  fix i assume "i < window_length p"
  then have "window (init_window p) ! i =
      Fin (0.5 * (1 - cos (2 * pi * real i / (real (window_length p) - 1))))"
    using assms(2) by (rule window_coefficient)
  moreover have "window p = window (init_window p)"
    using assms(1) by (simp add: tables_current_def)
  ultimately show "\<exists>w. window p ! i = Fin w" by metis
qed

lemma windowed_fft_input_one_sample:
  assumes "tables_current p" "window_length p = 1"
  shows "windowed_fft_input p wb = None"
proof -
  have "window p = [NaN]" using assms window_one_sample [of p] by (simp add: tables_current_def)
  then show ?thesis using assms(2) by (simp add: windowed_fft_input_def)
qed

lemma process_frame_one_sample:
  assumes "tables_current p" "window_length p = 1" "int (length xs) = hop_length p"
  shows "fst (process_frame p xs) = replicate (n_mels p) None"
  using windowed_fft_input_one_sample [OF assms(1,2)] assms(3)
  by (simp add: process_frame_def Let_def)

lemma tables_current_setters:
  assumes "tables_current p"
  shows "tables_current (set_sample_rate r p)" "tables_current (set_fft_size n p)"
    "tables_current (set_hop_length h p)" "tables_current (set_window_length w p)"
    "tables_current (set_mel_bands m p)" "tables_current (set_frequency_range lo hi p)"
    "tables_current (reset p)"
  using assms
  by (simp_all add: tables_current_def set_sample_rate_def set_fft_size_def set_hop_length_def
      set_window_length_def set_mel_bands_def set_frequency_range_def
      window_init_window tables_init_fft bank_init_mel_filter_bank bin_points_def)

lemma setters_overlap:
  "previous_samples (set_sample_rate r p) = previous_samples p"
  "previous_samples (set_fft_size n p) = previous_samples p"
  "previous_samples (set_hop_length h p) = overlap_zeros (set_hop_length h p)"
  "previous_samples (set_window_length w p) = overlap_zeros (set_window_length w p)"
  "previous_samples (set_mel_bands m p) = previous_samples p"
  "previous_samples (set_frequency_range lo hi p) = previous_samples p"
  by (simp_all add: set_sample_rate_def set_fft_size_def set_hop_length_def
      set_window_length_def set_mel_bands_def set_frequency_range_def overlap_zeros_def
      reset_previous_samples)

lemma setters_config:
  "sample_rate (set_sample_rate r p) = r"
  "n_fft (set_fft_size n p) = n" "length (fft_input (set_fft_size n p)) = n"
  "hop_length (set_hop_length h p) = h"
  "window_length (set_window_length w p) = w" "length (window_buffer (set_window_length w p)) = w"
  "n_mels (set_mel_bands m p) = m"
  "f_min (set_frequency_range lo hi p) = lo" "f_max (set_frequency_range lo hi p) = hi"
  by (simp_all add: set_sample_rate_def set_fft_size_def set_hop_length_def
      set_window_length_def set_mel_bands_def set_frequency_range_def)

text \<open>
  Claim C9, as amended. After each of the six setters the mutated field has its new
  value and every derived table is current for the new configuration (given it was
  current before). \<^verbatim>\<open>set_hop_length\<close> and \<^verbatim>\<open>set_window_length\<close> also reset the overlap
  buffer to zeros of the size the new configuration gives; \<^verbatim>\<open>set_sample_rate\<close>,
  \<^verbatim>\<open>set_fft_size\<close>, \<^verbatim>\<open>set_mel_bands\<close> and \<^verbatim>\<open>set_frequency_range\<close> leave the overlap
  buffer as it was.
\<close>

theorem setters_recompute:
  assumes "tables_current p"
  shows "(tables_current (set_sample_rate r p) \<and> sample_rate (set_sample_rate r p) = r \<and>
           previous_samples (set_sample_rate r p) = previous_samples p) \<and>
         (tables_current (set_fft_size n p) \<and> n_fft (set_fft_size n p) = n \<and>
           length (fft_input (set_fft_size n p)) = n \<and>
           previous_samples (set_fft_size n p) = previous_samples p) \<and>
         (tables_current (set_hop_length h p) \<and> hop_length (set_hop_length h p) = h \<and>
           previous_samples (set_hop_length h p) = overlap_zeros (set_hop_length h p)) \<and>
         (tables_current (set_window_length w p) \<and> window_length (set_window_length w p) = w \<and>
           length (window_buffer (set_window_length w p)) = w \<and>
           previous_samples (set_window_length w p) = overlap_zeros (set_window_length w p)) \<and>
         (tables_current (set_mel_bands m p) \<and> n_mels (set_mel_bands m p) = m \<and>
           previous_samples (set_mel_bands m p) = previous_samples p) \<and>
         (tables_current (set_frequency_range lo hi p) \<and>
           f_min (set_frequency_range lo hi p) = lo \<and> f_max (set_frequency_range lo hi p) = hi \<and>
           previous_samples (set_frequency_range lo hi p) = previous_samples p)"
proof -
  note current = tables_current_setters [OF assms]
  have rate: "tables_current (set_sample_rate r p) \<and> sample_rate (set_sample_rate r p) = r \<and>
      previous_samples (set_sample_rate r p) = previous_samples p"
    by (simp only: current setters_overlap setters_config simp_thms)
  have fft: "tables_current (set_fft_size n p) \<and> n_fft (set_fft_size n p) = n \<and>
      length (fft_input (set_fft_size n p)) = n \<and>
      previous_samples (set_fft_size n p) = previous_samples p"
    by (simp only: current setters_overlap setters_config simp_thms)
  have hop: "tables_current (set_hop_length h p) \<and> hop_length (set_hop_length h p) = h \<and>
      previous_samples (set_hop_length h p) = overlap_zeros (set_hop_length h p)"
    by (simp only: current setters_overlap setters_config simp_thms)
  have win: "tables_current (set_window_length w p) \<and> window_length (set_window_length w p) = w \<and>
      length (window_buffer (set_window_length w p)) = w \<and>
      previous_samples (set_window_length w p) = overlap_zeros (set_window_length w p)"
    by (simp only: current setters_overlap setters_config simp_thms)
  have mel: "tables_current (set_mel_bands m p) \<and> n_mels (set_mel_bands m p) = m \<and>
      previous_samples (set_mel_bands m p) = previous_samples p"
    by (simp only: current setters_overlap setters_config simp_thms)
  have range: "tables_current (set_frequency_range lo hi p) \<and>
      f_min (set_frequency_range lo hi p) = lo \<and> f_max (set_frequency_range lo hi p) = hi \<and>
      previous_samples (set_frequency_range lo hi p) = previous_samples p"
    by (simp only: current setters_overlap setters_config simp_thms)
  show ?thesis
    by (intro conjI rate fft hop win mel range)
qed

lemma tables_current_demo: "tables_current demo_processor"
  unfolding demo_processor_def by (intro tables_current_setters tables_current_new)

lemma demo_after_frame_buffers:
  "previous_samples demo_after_frame = [3, 5]" "window_length demo_after_frame = 4"
  "hop_length demo_after_frame = 2"
proof -
  have len: "int (length [3, 5 :: real]) = hop_length demo_processor" by simp
  show "previous_samples demo_after_frame = [3, 5]"
    unfolding demo_after_frame_def
    by (simp add: process_frame_buffers [OF buffers_ok_demo len])
  show "window_length demo_after_frame = 4" "hop_length demo_after_frame = 2"
    by (simp_all add: demo_after_frame_def process_frame_def Let_def split: option.splits)
qed

lemma tables_current_demo_after_frame: "tables_current demo_after_frame"
  unfolding demo_after_frame_def by (intro tables_current_process_frame tables_current_demo)

theorem setters_recompute_witness:
  "tables_current demo_after_frame \<and>
   tables_current (set_sample_rate 8000 demo_after_frame) \<and>
   previous_samples (set_sample_rate 8000 demo_after_frame) = [3, 5] \<and>
   tables_current (set_hop_length 1 demo_after_frame) \<and>
   previous_samples (set_hop_length 1 demo_after_frame) = [0, 0, 0]"
proof -
  have "overlap_zeros (set_hop_length 1 demo_after_frame) = [0, 0, 0]"
    by (simp add: overlap_zeros_def setters_config set_hop_length_def demo_after_frame_buffers
        numeral_3_eq_3)
  then show ?thesis
    using setters_recompute [OF tables_current_demo_after_frame, of 8000 4 1 4 1 0 0]
    by (simp add: demo_after_frame_buffers tables_current_demo_after_frame)
qed

text \<open>
  Claim C9 as stated fails: after one frame the overlap buffer of the example processor
  is \<open>[3, 5]\<close>, and \<^verbatim>\<open>set_sample_rate\<close> leaves it so, where a reset would give \<open>[0, 0]\<close>.
\<close>

theorem setters_reset_counterexample:
  "previous_samples (set_sample_rate 8000 demo_after_frame) = [3, 5] \<and>
   overlap_zeros (set_sample_rate 8000 demo_after_frame) = [0, 0]"
  by (simp add: setters_overlap demo_after_frame_buffers overlap_zeros_def set_sample_rate_def
      numeral_2_eq_2)

subsection \<open>The unsigned comparison, the context window and the hop loop\<close>

lemma unat_scast_nonneg:
  fixes i :: "32 word"
  assumes "0 \<le> sint i"
  shows "unat (scast i :: 64 word) = nat (sint i)"
proof -
  let ?w = "scast i :: 64 word"
  have s: "sint ?w = sint i" by (rule sint_up_scast) (simp add: is_up)
  have u: "uint ?w = take_bit 64 (sint i)" using uint_sint [of ?w] s by simp
  have "sint i < 2 ^ 31" using sint_lt [of i] by simp
  then have "sint i < 2 ^ 64" by (rule less_trans) simp
  then have "take_bit 64 (sint i) = sint i" using assms by (simp add: take_bit_int_eq_self)
  then show ?thesis using u unat_eq_nat_uint [of ?w] by (simp del: nat_uint_eq)
qed

lemma unat_scast_neg:
  fixes i :: "32 word"
  assumes "sint i < 0"
  shows "unat (scast i :: 64 word) = nat (2 ^ 64 + sint i)"
proof -
  let ?w = "scast i :: 64 word"
  have s: "sint ?w = sint i" by (rule sint_up_scast) (simp add: is_up)
  have u: "uint ?w = take_bit 64 (sint i)" using uint_sint [of ?w] s by simp
  have "- (2 ^ 31) \<le> sint i" using sint_ge [of i] by simp
  then have "0 \<le> 2 ^ 64 + sint i" "2 ^ 64 + sint i < 2 ^ 64" using assms by simp_all
  then have "take_bit 64 (2 ^ 64 + sint i) = 2 ^ 64 + sint i" by (simp add: take_bit_int_eq_self)
  moreover have "take_bit 64 (2 ^ 64 + sint i) = take_bit 64 (sint i)"
    by (simp add: take_bit_eq_mod)
  ultimately show ?thesis using u unat_eq_nat_uint [of ?w] by (simp del: nat_uint_eq)
qed

lemma size_gt_nonneg: "0 \<le> sint cs \<Longrightarrow> size_gt n cs \<longleftrightarrow> int n > sint cs"
  by (auto simp: size_gt_def unat_scast_nonneg)


lemma size_gt_zero [simp]: "\<not> size_gt 0 cs"
  by (simp add: size_gt_def)

lemma trim_front_nonneg:
  assumes "0 \<le> sint cs"
  shows "trim_front cs fb = drop (length fb - nat (sint cs)) fb"
  using assms
proof (induction cs fb rule: trim_front.induct)
  case (1 cs fb)
  note nonneg = \<open>0 \<le> sint cs\<close>
  show ?case
  proof (cases "size_gt (length fb) cs")
    case True
    then have gt: "int (length fb) > sint cs"
      using size_gt_nonneg [OF nonneg, of "length fb"] by simp
    then obtain x xs where fb: "fb = x # xs" using nonneg by (cases fb) auto
    have "trim_front cs fb = trim_front cs (tl fb)"
      using True by (subst trim_front.simps) simp
    also have "\<dots> = drop (length (tl fb) - nat (sint cs)) (tl fb)"
      using "1.IH" True nonneg by simp
    also have "\<dots> = drop (length fb - nat (sint cs)) fb"
      using gt fb nonneg by (simp add: Suc_diff_le drop_Cons')
    finally show ?thesis .
  next
    case False
    then have "int (length fb) \<le> sint cs"
      using size_gt_nonneg [OF nonneg, of "length fb"] by simp
    then show ?thesis using False by (subst trim_front.simps) simp
  qed
qed

lemma trim_front_Nil [simp]: "trim_front cs [] = []"
  by (subst trim_front.simps) simp

lemma normalize_frame_length [simp]: "length (normalize_frame mel) = length mel"
  by (simp add: normalize_frame_def Let_def)

lemma process_frame_features_length:
  "length (fst (process_frame p xs)) = (if int (length xs) = hop_length p then n_mels p else 0)"
  by (simp add: process_frame_def Let_def split: option.splits)

lemma process_frame_config [simp]:
  "sample_rate (snd (process_frame p xs)) = sample_rate p"
  "hop_length (snd (process_frame p xs)) = hop_length p"
  "window_length (snd (process_frame p xs)) = window_length p"
  "n_fft (snd (process_frame p xs)) = n_fft p"
  "n_mels (snd (process_frame p xs)) = n_mels p"
  "f_min (snd (process_frame p xs)) = f_min p"
  "f_max (snd (process_frame p xs)) = f_max p"
  by (simp_all add: process_frame_def Let_def split: option.splits)

lemma process_hops_unfold:
  "process_hops c added =
     (if length (audio_buffer c) \<ge> lsc_hop_length
      then process_hops (hop_step c)
             (if length (fst (process_frame (processor c) (take lsc_hop_length (audio_buffer c)))) > 0
              then True else added)
      else (c, added))"
  by (subst process_hops.simps) (simp add: hop_step_def Let_def split_beta)

lemma hop_step_fields [simp]:
  "context_size (hop_step c) = context_size c"
  "model (hop_step c) = model c"
  "resample_fraction (hop_step c) = resample_fraction c"
  "audio_buffer (hop_step c) = drop lsc_hop_length (audio_buffer c)"
  by (simp_all add: hop_step_def Let_def)

lemma hop_step_window:
  assumes "0 \<le> sint (context_size c)" "int (length (feature_buffer c)) \<le> sint (context_size c)"
  shows "int (length (feature_buffer (hop_step c))) \<le> sint (context_size c)"
  using assms by (auto simp: hop_step_def Let_def size_gt_nonneg)

lemma process_hops_invariant:
  assumes "P c" and step: "\<And>c. P c \<Longrightarrow> lsc_hop_length \<le> length (audio_buffer c) \<Longrightarrow> P (hop_step c)"
  shows "P (fst (process_hops c added))"
  using assms(1)
proof (induction "length (audio_buffer c)" arbitrary: c added rule: less_induct)
  case less
  show ?case
  proof (cases "lsc_hop_length \<le> length (audio_buffer c)")
    case True
    then have "length (audio_buffer (hop_step c)) < length (audio_buffer c)" by simp
    then show ?thesis
      using less True step by (subst process_hops_unfold) simp
  next
    case False
    then show ?thesis using less.prems by (subst process_hops_unfold) simp
  qed
qed

lemma process_hops_fields [simp]:
  "context_size (fst (process_hops c added)) = context_size c"
  "model (fst (process_hops c added)) = model c"
  "resample_fraction (fst (process_hops c added)) = resample_fraction c"
proof -
  show "context_size (fst (process_hops c added)) = context_size c"
    by (rule process_hops_invariant [where P = "\<lambda>d. context_size d = context_size c"]) simp_all
  show "model (fst (process_hops c added)) = model c"
    by (rule process_hops_invariant [where P = "\<lambda>d. model d = model c"]) simp_all
  show "resample_fraction (fst (process_hops c added)) = resample_fraction c"
    by (rule process_hops_invariant [where P = "\<lambda>d. resample_fraction d = resample_fraction c"])
      simp_all
qed

lemma process_hops_window:
  assumes "0 \<le> sint (context_size c)" "int (length (feature_buffer c)) \<le> sint (context_size c)"
  shows "int (length (feature_buffer (fst (process_hops c added)))) \<le> sint (context_size c)"
proof -
  let ?P = "\<lambda>d :: lip_sync_context. context_size d = context_size c \<and>
                 int (length (feature_buffer d)) \<le> sint (context_size c)"
  have "?P (fst (process_hops c added))"
  proof (rule process_hops_invariant [where P = ?P])
    show "?P c" using assms by simp
  next
    fix d assume d: "?P d"
    then have "int (length (feature_buffer (hop_step d))) \<le> sint (context_size d)"
      using assms(1) by (intro hop_step_window) simp_all
    then show "?P (hop_step d)" using d by simp
  qed
  then show ?thesis by simp
qed

subsection \<open>The resampler returns; the guards of process\<close>

lemma resample_loop_returns:
  assumes "0 < ratio"
  shows "\<exists>r. resample_loop input ratio pos buf = Some r"
proof (induction "nat \<lceil>(of_int (int (length input) - 1) - pos) / ratio\<rceil>"
    arbitrary: pos buf rule: less_induct)
  case less
  let ?c = "of_int (int (length input) - 1) :: real"
  show ?case
  proof (cases "pos < ?c")
    case True
    have pos1: "0 < (?c - pos) / ratio" using True assms by simp
    have "(?c - (pos + ratio)) / ratio = (?c - pos) / ratio - 1"
      using assms by (simp add: field_simps)
    then have "\<lceil>(?c - (pos + ratio)) / ratio\<rceil> = \<lceil>(?c - pos) / ratio\<rceil> - 1" by simp
    moreover have "0 < \<lceil>(?c - pos) / ratio\<rceil>" using pos1 by simp
    ultimately have "nat \<lceil>(?c - (pos + ratio)) / ratio\<rceil> < nat \<lceil>(?c - pos) / ratio\<rceil>"
      by simp
    from less [OF this] show ?thesis
      using True by (subst resample_loop.simps) (simp add: Let_def)
  next
    case False
    then show ?thesis by (subst resample_loop.simps) simp
  qed
qed

lemma resample_and_push_returns:
  assumes "0 < source_rate"
  shows "\<exists>c'. resample_and_push c input source_rate = Some c'"
proof -
  have "0 < real_of_int source_rate / 16000" using assms by simp
  from resample_loop_returns [OF this, of input "resample_fraction c" "audio_buffer c"]
  show ?thesis by (auto simp: resample_and_push_def Let_def)
qed

lemma resample_and_push_fields:
  assumes "resample_and_push c input source_rate = Some c'"
  shows "feature_buffer c' = feature_buffer c" "context_size c' = context_size c"
    "model c' = model c" "processor c' = processor c"
  using assms
  by (auto simp: resample_and_push_def Let_def split: if_splits option.splits)

lemma process_returns:
  assumes "0 < source_rate"
  shows "\<exists>r. process c audio source_rate = Some r"
proof -
  obtain c' where "resample_and_push c (map (\<lambda>(x, y). (x + y) * 0.5) audio) source_rate = Some c'"
    using resample_and_push_returns [OF assms] by blast
  then show ?thesis
    by (simp add: process_def Let_def split: option.splits prod.splits)
qed

lemma resample_loop_stuck:
  assumes "ratio \<le> 0" "pos < of_int (int (length input) - 1)"
  shows "resample_loop input ratio pos buf = None"
proof (rule ccontr)
  assume "resample_loop input ratio pos buf \<noteq> None"
  then obtain r where r: "resample_loop input ratio pos buf = Some r" by auto
  have "ratio \<le> 0 \<longrightarrow> \<not> pos < of_int (int (length input) - 1)"
  proof (rule resample_loop.raw_induct
      [where P = "\<lambda>input ratio pos buf y. ratio \<le> 0 \<longrightarrow> \<not> pos < of_int (int (length input) - 1)",
        OF _ r])
    fix loop :: "real list \<Rightarrow> real \<Rightarrow> real \<Rightarrow> real list \<Rightarrow> (real \<times> real list) option"
    fix xs :: "real list" and q c :: real and b :: "real list" and y
    assume hyp: "\<And>xs q c b y. loop xs q c b = Some y \<Longrightarrow>
        q \<le> 0 \<longrightarrow> \<not> c < of_int (int (length xs) - 1)"
    assume step: "(if c < of_int (int (length xs) - 1)
        then let idx = trunc c; t = c - of_int idx; s0 = xs ! nat idx; s1 = xs ! nat (idx + 1);
                 val = s0 + (s1 - s0) * t
             in loop xs q (c + q) (b @ [val])
        else Some (c, b)) = Some y"
    show "q \<le> 0 \<longrightarrow> \<not> c < of_int (int (length xs) - 1)"
    proof (intro impI notI)
      assume le: "q \<le> 0" and below: "c < of_int (int (length xs) - 1)"
      from step below obtain val where "loop xs q (c + q) (b @ [val]) = Some y"
        by (simp add: Let_def)
      from hyp [OF this] le have "\<not> c + q < of_int (int (length xs) - 1)" by blast
      then show False using le below by linarith
    qed
  qed
  then show False using assms by simp
qed

text \<open>
  With a source rate that is not positive the cursor never advances, and a call whose
  chunk reaches beyond the carried phase does not return.
\<close>

lemma process_no_return:
  assumes "model c = Some m" "audio \<noteq> []" "source_rate \<le> 0"
    and "resample_fraction c < real (length audio) - 1"
  shows "process c audio source_rate = None"
proof -
  have ne: "audio \<noteq> []" "source_rate \<noteq> 16000" using assms(2,3) by auto
  have "real_of_int source_rate / 16000 \<le> 0" using assms(3) by simp
  moreover have "resample_fraction c <
      of_int (int (length (map (\<lambda>(x, y). (x + y) * 0.5) audio)) - 1)"
    using assms(4) by simp
  ultimately have "resample_loop (map (\<lambda>(x, y). (x + y) * 0.5) audio)
      (real_of_int source_rate / 16000) (resample_fraction c) (audio_buffer c) = None"
    by (rule resample_loop_stuck)
  then show ?thesis
    using assms(1) ne by (simp add: process_def resample_and_push_def Let_def)
qed

lemma process_guard:
  "model c = None \<Longrightarrow> process c audio source_rate = Some ([], c)"
  "process c [] source_rate = Some ([], c)"
  by (simp_all add: process_def split: option.splits)

lemma process_window:
  assumes "0 \<le> sint (context_size c)" "int (length (feature_buffer c)) \<le> sint (context_size c)"
    and "process c audio source_rate = Some (out, c')"
  shows "context_size c' = context_size c \<and> int (length (feature_buffer c')) \<le> sint (context_size c)"
proof (cases "model c = None \<or> audio = []")
  case True
  then show ?thesis using assms by (auto simp: process_guard)
next
  case False
  then obtain m where m: "model c = Some m" and a: "audio \<noteq> []" by auto
  from assms(3) m a obtain c1 where
    c1: "resample_and_push c (map (\<lambda>(x, y). (x + y) * 0.5) audio) source_rate = Some c1"
    and c': "c' = fst (process_hops c1 False)"
    by (auto simp: process_def Let_def split: option.splits prod.splits if_splits)
  have "context_size c1 = context_size c" "feature_buffer c1 = feature_buffer c"
    using resample_and_push_fields [OF c1] by simp_all
  then show ?thesis
    using process_hops_window [of c1 False] assms(1,2) c' by simp
qed

subsection \<open>Running the scheduler on example contexts\<close>

lemma setters_keep [simp]:
  "hop_length (set_sample_rate r p) = hop_length p" "n_mels (set_sample_rate r p) = n_mels p"
  "hop_length (set_window_length w p) = hop_length p" "n_mels (set_window_length w p) = n_mels p"
  "hop_length (set_mel_bands m p) = hop_length p"
  "n_mels (set_hop_length h p) = n_mels p"
  "hop_length (set_fft_size n p) = hop_length p" "n_mels (set_fft_size n p) = n_mels p"
  "hop_length (set_frequency_range lo hi p) = hop_length p"
  "n_mels (set_frequency_range lo hi p) = n_mels p"
  by (simp_all add: set_sample_rate_def set_fft_size_def set_hop_length_def
      set_window_length_def set_mel_bands_def set_frequency_range_def)

lemma new_context_fields [simp]:
  "model new_lip_sync_context = None" "audio_buffer new_lip_sync_context = []"
  "feature_buffer new_lip_sync_context = []" "context_size new_lip_sync_context = 100"
  "resample_fraction new_lip_sync_context = 0"
  "hop_length (processor new_lip_sync_context) = 160"
  "n_mels (processor new_lip_sync_context) = 80"
  by (simp_all add: new_lip_sync_context_def setters_config)

lemma lsc_reset_fields [simp]:
  "model (lsc_reset c) = model c" "audio_buffer (lsc_reset c) = []"
  "feature_buffer (lsc_reset c) = []" "context_size (lsc_reset c) = context_size c"
  "resample_fraction (lsc_reset c) = 0"
  "hop_length (processor (lsc_reset c)) = hop_length (processor c)"
  "n_mels (processor (lsc_reset c)) = n_mels (processor c)"
  by (simp_all add: lsc_reset_def)

lemma load_model_fields [simp]:
  "context_size (snd (load_model file c)) = context_size c"
  "hop_length (processor (snd (load_model file c))) = hop_length (processor c)"
  "n_mels (processor (snd (load_model file c))) = n_mels (processor c)"
  by (simp_all add: load_model_def onnx_load_model_def Let_def split: option.splits)

lemma load_model_failed:
  "fst (load_model None c) = False"
  "audio_buffer (snd (load_model None c)) = audio_buffer c"
  "feature_buffer (snd (load_model None c)) = feature_buffer c"
  "resample_fraction (snd (load_model None c)) = resample_fraction c"
  "processor (snd (load_model None c)) = processor c"
  "\<exists>m. model (snd (load_model None c)) = Some m \<and> session m = None"
  by (simp_all add: load_model_def onnx_load_model_def Let_def split: option.splits)

lemma load_model_loaded:
  "fst (load_model (Some run) c) = True"
  "audio_buffer (snd (load_model (Some run) c)) = []"
  "feature_buffer (snd (load_model (Some run) c)) = []"
  "resample_fraction (snd (load_model (Some run) c)) = 0"
  "\<exists>m. model (snd (load_model (Some run) c)) = Some m \<and> session m = Some run"
  by (simp_all add: load_model_def onnx_load_model_def Let_def split: option.splits)

lemma hop_step_first_frame:
  assumes "lsc_hop_length \<le> length (audio_buffer c)" "hop_length (processor c) = 160"
    "0 < n_mels (processor c)"
  shows "length (fst (process_frame (processor c) (take lsc_hop_length (audio_buffer c)))) =
         n_mels (processor c)"
    and "hop_length (processor (hop_step c)) = 160"
    and "n_mels (processor (hop_step c)) = n_mels (processor c)"
    and "feature_buffer (hop_step c) =
         (let fb = feature_buffer c @ [fst (process_frame (processor c) (take lsc_hop_length (audio_buffer c)))]
          in if size_gt (length fb) (context_size c) then tl fb else fb)"
proof -
  let ?f = "fst (process_frame (processor c) (take lsc_hop_length (audio_buffer c)))"
  show len: "length ?f = n_mels (processor c)"
    using assms by (simp add: process_frame_features_length)
  then have "?f \<noteq> []" using assms(3) by auto
  then show "feature_buffer (hop_step c) =
      (let fb = feature_buffer c @ [?f]
       in if size_gt (length fb) (context_size c) then tl fb else fb)"
    by (simp add: hop_step_def Let_def)
  show "hop_length (processor (hop_step c)) = 160" "n_mels (processor (hop_step c)) = n_mels (processor c)"
    using assms by (simp_all add: hop_step_def Let_def)
qed

lemma process_hops_stop:
  "length (audio_buffer c) < lsc_hop_length \<Longrightarrow> process_hops c added = (c, added)"
  by (subst process_hops_unfold) simp

lemma process_hops_one:
  assumes "lsc_hop_length \<le> length (audio_buffer c)" "hop_length (processor c) = 160"
    "0 < n_mels (processor c)"
  shows "process_hops c added = process_hops (hop_step c) True"
  using assms hop_step_first_frame(1) [OF assms]
  by (subst process_hops_unfold) simp

lemma process_direct:
  assumes "model c = Some m" "audio \<noteq> []"
  shows "process c audio 16000 =
     (case process_hops (c\<lparr>audio_buffer := audio_buffer c @ map (\<lambda>(x, y). (x + y) * 0.5) audio\<rparr>) False of
        (c', added) \<Rightarrow> if added \<and> feature_buffer c' \<noteq> []
                        then Some (infer_last_frame m (feature_buffer c'), c') else Some ([], c'))"
  using assms by (simp add: process_def resample_and_push_def Let_def)

subsection \<open>Claim C10\<close>

lemma infer_last_frame_no_session: "session m = None \<Longrightarrow> infer_last_frame m fb = []"
  by (simp add: infer_last_frame_def run_inference_def Let_def)

lemma sint_100 [simp]: "sint (100 :: 32 word) = 100"
  by simp

lemma failed_load_context_fields [simp]:
  "audio_buffer failed_load_context = []" "feature_buffer failed_load_context = []"
  "context_size failed_load_context = 100"
  "hop_length (processor failed_load_context) = 160"
  "n_mels (processor failed_load_context) = 80"
  by (simp_all add: failed_load_context_def load_model_failed)

lemma silence_mono:
  "map (\<lambda>(x, y). (x + y) * 0.5) (silence n) = replicate n 0"
  "map (\<lambda>(x, y). (x + y) / 2) (silence n) = replicate n 0"
  by (simp_all add: silence_def)

text \<open>
  Claim C10, as amended. If the model handle is null (no \<^verbatim>\<open>load_model\<close> call has been
  made) or the stereo block is empty, \<^verbatim>\<open>process\<close> returns the empty result at once and
  the context it was given: accumulation buffer, resampler phase, context window and the
  frame processor's overlap buffer are unchanged, and the audio is discarded.
\<close>

theorem process_without_model_or_audio:
  assumes "model c = None \<or> audio = []"
  shows "process c audio source_rate = Some ([], c)"
  using assms by (auto simp: process_guard)

theorem process_without_model_or_audio_witness:
  "(model new_lip_sync_context = None \<or> silence 160 = []) \<and>
   process new_lip_sync_context (silence 160) 44100 = Some ([], new_lip_sync_context) \<and>
   (model three_values_context = None \<or> ([] :: (real \<times> real) list) = []) \<and>
   process three_values_context [] 44100 = Some ([], three_values_context)"
  using process_without_model_or_audio [of new_lip_sync_context "silence 160" 44100]
    process_without_model_or_audio [of three_values_context "[]" 44100]
  by simp

text \<open>
  Claim C10 as stated fails after a \<^verbatim>\<open>load_model\<close> call that failed: no model has been
  loaded, but the handle is no longer null, so \<^verbatim>\<open>process\<close> runs the pipeline. One hop of
  silence leaves a feature frame in the context window that was empty before.
\<close>

theorem process_after_failed_load_counterexample:
  "fst (load_model None new_lip_sync_context) = False \<and>
   process failed_load_context (silence 160) 16000 =
     Some ([], hop_step (failed_load_context\<lparr>audio_buffer := replicate 160 0\<rparr>)) \<and>
   feature_buffer failed_load_context = [] \<and>
   length (feature_buffer (hop_step (failed_load_context\<lparr>audio_buffer := replicate 160 0\<rparr>))) = 1"
proof -
  let ?c1 = "failed_load_context\<lparr>audio_buffer := replicate 160 0\<rparr>"
  obtain m where m: "model failed_load_context = Some m" "session m = None"
    unfolding failed_load_context_def using load_model_failed(6) by blast
  have pre: "lsc_hop_length \<le> length (audio_buffer ?c1)" "hop_length (processor ?c1) = 160"
    "0 < n_mels (processor ?c1)"
    by simp_all
  have fb: "length (feature_buffer (hop_step ?c1)) = 1"
    by (simp add: hop_step_first_frame(4) [OF pre] Let_def size_gt_nonneg)
  have "process_hops ?c1 False = process_hops (hop_step ?c1) True"
    by (rule process_hops_one [OF pre])
  also have "\<dots> = (hop_step ?c1, True)"
    by (rule process_hops_stop) simp
  finally have hops: "process_hops ?c1 False = (hop_step ?c1, True)" .
  have "silence 160 \<noteq> []" by (simp add: silence_def)
  then have "process failed_load_context (silence 160) 16000 = Some ([], hop_step ?c1)"
    using hops m by (simp add: process_direct [OF m(1)] silence_mono infer_last_frame_no_session)
  then show ?thesis
    using fb by (simp add: load_model_failed)
qed

subsection \<open>Claim C5\<close>

lemma load_model_window:
  "length (feature_buffer (snd (load_model file c))) \<le> length (feature_buffer c)"
  by (simp add: load_model_def onnx_load_model_def Let_def lsc_reset_def split: option.splits)

lemma set_context_size_nonneg:
  assumes "0 \<le> sint n"
  shows "feature_buffer (set_context_size n c) = last_values (nat (sint n)) (feature_buffer c)"
    and "context_size (set_context_size n c) = n"
  using assms by (simp_all add: set_context_size_def trim_front_nonneg last_values_def)

lemma run_call_window:
  assumes "nonneg_size x" "run_call c x = Some c'"
    and "0 \<le> sint (context_size c)" "int (length (feature_buffer c)) \<le> sint (context_size c)"
  shows "0 \<le> sint (context_size c') \<and> int (length (feature_buffer c')) \<le> sint (context_size c')"
proof (cases x)
  case (Process audio rate)
  then obtain out where "process c audio rate = Some (out, c')"
    using assms(2) by auto
  from process_window [OF assms(3,4) this] show ?thesis using assms(3) by simp
next
  case (SetContextSize n)
  then have n: "0 \<le> sint n" and c': "c' = set_context_size n c" using assms(1,2) by simp_all
  show ?thesis
    using n by (simp add: c' set_context_size_nonneg [OF n] last_values_def)
next
  case (LoadModel f)
  then have "c' = snd (load_model f c)" using assms(2) by simp
  then show ?thesis
    using assms(3,4) load_model_window [of f c] by simp
next
  case Reset
  then show ?thesis using assms(2,3) by auto
qed

lemma run_calls_window:
  assumes "list_all nonneg_size calls" "run_calls c calls = Some c'"
    and "0 \<le> sint (context_size c)" "int (length (feature_buffer c)) \<le> sint (context_size c)"
  shows "0 \<le> sint (context_size c') \<and> int (length (feature_buffer c')) \<le> sint (context_size c')"
  using assms
proof (induction calls arbitrary: c)
  case Nil
  then show ?case by simp
next
  case (Cons x xs)
  then obtain d where d: "run_call c x = Some d" "run_calls d xs = Some c'"
    by (auto split: option.splits)
  have "0 \<le> sint (context_size d) \<and> int (length (feature_buffer d)) \<le> sint (context_size d)"
    using run_call_window [OF _ d(1) Cons.prems(3,4)] Cons.prems(1) by simp
  then show ?case
    using Cons.IH [OF _ d(2)] Cons.prems(1) by simp
qed

lemma run_calls_returns:
  assumes "list_all positive_rate calls"
  shows "\<exists>c'. run_calls c calls = Some c'"
  using assms
proof (induction calls arbitrary: c)
  case Nil
  then show ?case by simp
next
  case (Cons x xs)
  have "\<exists>d. run_call c x = Some d"
  proof (cases x)
    case (Process audio rate)
    then have "0 < rate" using Cons.prems by simp
    from process_returns [OF this, of c audio] show ?thesis using Process by auto
  qed simp_all
  then obtain d where "run_call c x = Some d" by blast
  then show ?case using Cons.IH [of d] Cons.prems by simp
qed

lemma run_calls_prefix:
  "run_calls c (xs @ ys) = Some c' \<Longrightarrow> \<exists>d. run_calls c xs = Some d"
  by (induction xs arbitrary: c) (auto split: option.splits)

lemma three_values_context_fields [simp]:
  "audio_buffer three_values_context = []" "feature_buffer three_values_context = []"
  "context_size three_values_context = 100"
  "hop_length (processor three_values_context) = 160"
  "n_mels (processor three_values_context) = 80"
  by (simp_all add: three_values_context_def load_model_loaded)

text \<open>
  Claim C5, as amended. \<^verbatim>\<open>context_size\<close> is a signed \<^verbatim>\<open>int\<close> that the code compares as
  unsigned. For every sequence of calls on a new context in which each
  \<^verbatim>\<open>set_context_size\<close> gets a non-negative capacity, the context window holds at most
  \<^verbatim>\<open>context_size\<close> frames after each of the calls, however many hops one \<^verbatim>\<open>process\<close>
  call runs; and \<^verbatim>\<open>set_context_size\<close> with a
  non-negative capacity \<open>n\<close> keeps exactly the last \<open>n\<close> frames of the window, or all of them
  when there are fewer.
\<close>

theorem context_window_bounded:
  assumes "list_all nonneg_size calls" "run_calls new_lip_sync_context calls = Some c"
    and "0 \<le> sint n"
  shows "(\<forall>k\<le>length calls. \<exists>c'. run_calls new_lip_sync_context (take k calls) = Some c' \<and>
            int (length (feature_buffer c')) \<le> sint (context_size c')) \<and>
         int (length (feature_buffer c)) \<le> sint (context_size c) \<and>
         feature_buffer (set_context_size n c) = last_values (nat (sint n)) (feature_buffer c) \<and>
         int (length (feature_buffer (set_context_size n c))) \<le> sint n"
proof -
  have prefix: "\<exists>c'. run_calls new_lip_sync_context (take k calls) = Some c' \<and>
      int (length (feature_buffer c')) \<le> sint (context_size c')" for k
  proof -
    have "run_calls new_lip_sync_context (take k calls @ drop k calls) = Some c"
      using assms(2) by simp
    then obtain c' where c': "run_calls new_lip_sync_context (take k calls) = Some c'"
      using run_calls_prefix by blast
    have "list_all nonneg_size (take k calls)"
      using assms(1) by (auto simp: list_all_iff dest: in_set_takeD)
    from run_calls_window [OF this c'] show ?thesis using c' by simp
  qed
  have "int (length (feature_buffer c)) \<le> sint (context_size c)"
    using run_calls_window [OF assms(1,2)] by simp
  moreover have "int (length (last_values (nat (sint n)) (feature_buffer c))) \<le> sint n"
    using assms(3) by (simp add: last_values_def)
  ultimately show ?thesis
    using prefix by (simp add: set_context_size_nonneg [OF assms(3)])
qed

theorem context_window_bounded_witness:
  "list_all nonneg_size demo_calls \<and> (0 :: int) \<le> sint (0 :: 32 word) \<and>
   (\<exists>c. run_calls new_lip_sync_context demo_calls = Some c \<and>
        int (length (feature_buffer c)) \<le> sint (context_size c) \<and>
        feature_buffer (set_context_size 0 c) = last_values (nat (sint (0 :: 32 word))) (feature_buffer c))"
proof -
  have nn: "list_all nonneg_size demo_calls" by (simp add: demo_calls_def)
  have "list_all positive_rate demo_calls" by (simp add: demo_calls_def)
  then obtain c where c: "run_calls new_lip_sync_context demo_calls = Some c"
    using run_calls_returns by blast
  have z: "(0 :: int) \<le> sint (0 :: 32 word)" by simp
  show ?thesis
    using context_window_bounded [OF nn c z] nn c by simp
qed

text \<open>
  Claim C5 as stated fails for a negative capacity: \<^verbatim>\<open>set_context_size(-1)\<close> on a window
  of one frame evicts nothing, since \<open>-1\<close> compares as \<open>2 ^ 64 - 1\<close>, and the window then
  holds more than \<^verbatim>\<open>context_size\<close> frames.
\<close>

theorem context_window_negative_counterexample:
  "map_option snd (process three_values_context (silence 160) 16000) = Some one_frame_context \<and>
   length (feature_buffer one_frame_context) = 1 \<and>
   feature_buffer (set_context_size (- 1) one_frame_context) = feature_buffer one_frame_context \<and>
   sint (context_size (set_context_size (- 1) one_frame_context)) = - 1"
proof -
  let ?c1 = "three_values_context\<lparr>audio_buffer := replicate 160 0\<rparr>"
  obtain m where m: "model three_values_context = Some m"
    unfolding three_values_context_def using load_model_loaded(5) by blast
  have pre: "lsc_hop_length \<le> length (audio_buffer ?c1)" "hop_length (processor ?c1) = 160"
    "0 < n_mels (processor ?c1)"
    by simp_all
  have fb: "length (feature_buffer one_frame_context) = 1"
    unfolding one_frame_context_def
    by (simp add: hop_step_first_frame(4) [OF pre] Let_def size_gt_nonneg)
  have "process_hops ?c1 False = process_hops (hop_step ?c1) True"
    by (rule process_hops_one [OF pre])
  also have "\<dots> = (hop_step ?c1, True)"
    by (rule process_hops_stop) simp
  finally have hops: "process_hops ?c1 False = (one_frame_context, True)"
    by (simp add: one_frame_context_def)
  have ab: "audio_buffer three_values_context = []" by simp
  have "silence 160 \<noteq> []" by (simp add: silence_def)
  then have run: "map_option snd (process three_values_context (silence 160) 16000) =
      Some one_frame_context"
    using hops by (simp add: process_direct [OF m] silence_mono ab)
  have "unat (scast (- 1 :: 32 word) :: 64 word) = nat (2 ^ 64 + sint (- 1 :: 32 word))"
    by (rule unat_scast_neg) simp
  then have "\<not> size_gt (length (feature_buffer one_frame_context)) (- 1)"
    by (simp add: fb size_gt_def)
  then have keep: "feature_buffer (set_context_size (- 1) one_frame_context) =
      feature_buffer one_frame_context"
    by (subst set_context_size_def, subst trim_front.simps) simp
  show ?thesis
    using run fb keep by (simp add: set_context_size_def)
qed

subsection \<open>Flattening and the last timestep; claim C6\<close>

lemma concat_uniform_length:
  "list_all (\<lambda>f. length f = k) fb \<Longrightarrow> length (concat fb) = length fb * k"
  by (induction fb) simp_all

lemma concat_uniform_nth:
  assumes "list_all (\<lambda>f. length f = k) fb" "i < length fb" "j < k"
  shows "concat fb ! (i * k + j) = fb ! i ! j"
  using assms
proof (induction fb arbitrary: i)
  case Nil
  then show ?case by simp
next
  case (Cons f fb)
  show ?case
  proof (cases i)
    case 0
    then show ?thesis using Cons.prems by (simp add: nth_append)
  next
    case (Suc i')
    then have "concat (f # fb) ! (i * k + j) = concat fb ! (i' * k + j)"
      using Cons.prems by (simp add: nth_append)
    then show ?thesis using Cons Suc by simp
  qed
qed

lemma flatten_frames:
  assumes "list_all (\<lambda>f. length f = k) fb"
  shows "fill_rows (length fb) k (\<lambda>i j. fb ! i ! j) (replicate (length fb * k) d) = concat fb"
proof (rule nth_equalityI)
  show "length (fill_rows (length fb) k (\<lambda>i j. fb ! i ! j) (replicate (length fb * k) d)) =
      length (concat fb)"
    using assms by (simp add: fill_rows_length concat_uniform_length)
next
  fix m assume "m < length (fill_rows (length fb) k (\<lambda>i j. fb ! i ! j) (replicate (length fb * k) d))"
  then have m: "m < length fb * k" by (simp add: fill_rows_length)
  then have k: "0 < k" by (cases k) simp_all
  have i: "m div k < length fb" using m k by (simp add: less_mult_imp_div_less)
  have j: "m mod k < k" using k by simp
  have eq: "m = m div k * k + m mod k" by simp
  have "fill_rows (length fb) k (\<lambda>i j. fb ! i ! j) (replicate (length fb * k) d) ! (m div k * k + m mod k)
      = fb ! (m div k) ! (m mod k)"
    by (rule fill_rows_nth [OF i j]) simp
  moreover have "concat fb ! (m div k * k + m mod k) = fb ! (m div k) ! (m mod k)"
    by (rule concat_uniform_nth [OF assms i j])
  ultimately show "fill_rows (length fb) k (\<lambda>i j. fb ! i ! j) (replicate (length fb * k) d) ! m =
      concat fb ! m"
    using eq by metis
qed

lemma slice_map_nth:
  assumes "s + w \<le> length out"
  shows "map (\<lambda>i. out ! (s + i)) [0..<w] = take w (drop s out)"
  using assms by (intro nth_equalityI) simp_all

lemma infer_last_frame_slice:
  assumes "list_all (\<lambda>frame. length frame = lsc_n_mels) fb" "fb \<noteq> []"
  shows "infer_last_frame m fb =
     take (length (run_inference m (concat fb)) div length fb)
       (drop ((length fb - 1) * (length (run_inference m (concat fb)) div length fb))
          (run_inference m (concat fb)))"
proof -
  let ?out = "run_inference m (concat fb)"
  let ?n = "length fb"
  let ?w = "length ?out div ?n"
  have n: "0 < ?n" using assms(2) by simp
  have "(?n - 1) * ?w + ?w = ?n * ?w" using n by (cases ?n) simp_all
  also have "\<dots> \<le> length ?out" by simp
  finally have fit: "(?n - 1) * ?w + ?w \<le> length ?out" .
  have "infer_last_frame m fb =
      (if length ?out > 0 then map (\<lambda>i. ?out ! ((?n - 1) * ?w + i)) [0..<?w] else [])"
    by (simp add: infer_last_frame_def Let_def flatten_frames [OF assms(1)])
  also have "\<dots> = take ?w (drop ((?n - 1) * ?w) ?out)"
    using slice_map_nth [OF fit] by simp
  finally show ?thesis .
qed

lemma last_timestep_is_last_values:
  assumes "n dvd length out" "0 < n"
  shows "take (length out div n) (drop ((n - 1) * (length out div n)) out) =
         last_values (length out div n) out"
proof -
  let ?w = "length out div n"
  have "n * ?w = length out" using assms by simp
  moreover have "(n - 1) * ?w + ?w = n * ?w" using assms(2) by (cases n) simp_all
  ultimately have "(n - 1) * ?w = length out - ?w" by simp
  then show ?thesis by (simp add: last_values_def)
qed

lemma process_result:
  assumes "model c = Some m" "audio \<noteq> []"
    and "resample_and_push c (map (\<lambda>(x, y). (x + y) * 0.5) audio) source_rate = Some c1"
    and "process_hops c1 False = (c2, added)"
  shows "process c audio source_rate =
     Some (if added \<and> feature_buffer c2 \<noteq> [] then infer_last_frame m (feature_buffer c2) else [], c2)"
  using assms by (simp add: process_def Let_def)

lemma hop_step_frames:
  assumes "n_mels (processor c) = lsc_n_mels"
    "list_all (\<lambda>frame. length frame = lsc_n_mels) (feature_buffer c)"
  shows "n_mels (processor (hop_step c)) = lsc_n_mels \<and>
         list_all (\<lambda>frame. length frame = lsc_n_mels) (feature_buffer (hop_step c))"
proof -
  let ?f = "fst (process_frame (processor c) (take lsc_hop_length (audio_buffer c)))"
  have "length ?f = lsc_n_mels \<or> length ?f = 0"
    using assms(1) process_frame_features_length [of "processor c" "take lsc_hop_length (audio_buffer c)"]
    by presburger
  then have "?f \<noteq> [] \<Longrightarrow> length ?f = lsc_n_mels" by auto
  moreover have "list_all P (tl xs)" if "list_all P xs" for P and xs :: "tensor list"
    using that by (cases xs) simp_all
  ultimately show ?thesis
    using assms by (auto simp: hop_step_def Let_def)
qed

lemma process_hops_frames:
  assumes "n_mels (processor c) = lsc_n_mels"
    "list_all (\<lambda>frame. length frame = lsc_n_mels) (feature_buffer c)"
  shows "n_mels (processor (fst (process_hops c added))) = lsc_n_mels \<and>
         list_all (\<lambda>frame. length frame = lsc_n_mels) (feature_buffer (fst (process_hops c added)))"
  by (rule process_hops_invariant
      [where P = "\<lambda>d. n_mels (processor d) = lsc_n_mels \<and>
                       list_all (\<lambda>frame. length frame = lsc_n_mels) (feature_buffer d)"])
    (use assms hop_step_frames in auto)

lemma process_frames_kept:
  assumes "n_mels (processor c) = lsc_n_mels"
    "list_all (\<lambda>frame. length frame = lsc_n_mels) (feature_buffer c)"
    and "resample_and_push c input source_rate = Some c1"
  shows "list_all (\<lambda>frame. length frame = lsc_n_mels) (feature_buffer (fst (process_hops c1 False)))"
  using process_hops_frames [of c1 False] resample_and_push_fields [OF assms(3)] assms(1,2)
  by simp


subsection \<open>Example runs for claim C6\<close>

lemma three_values_context_model: "model three_values_context = Some three_values_model"
  by (simp add: three_values_context_def three_values_model_def load_model_def
      onnx_load_model_def Let_def)

lemma three_values_run [simp]: "run_inference three_values_model t = [Some 1, Some 2, Some 3]"
  by (simp add: run_inference_def three_values_model_def)

lemma three_values_push:
  "resample_and_push three_values_context (map (\<lambda>(x, y). (x + y) * 0.5) (silence (Suc n))) 16000 =
     Some (three_values_context\<lparr>audio_buffer := replicate (Suc n) 0\<rparr>)"
  using silence_mono(2) [of "Suc n"]
  by (simp add: resample_and_push_def Let_def)

lemma one_frame_hops:
  "process_hops (three_values_context\<lparr>audio_buffer := replicate 160 0\<rparr>) False =
     (one_frame_context, True)"
proof -
  let ?c1 = "three_values_context\<lparr>audio_buffer := replicate 160 0\<rparr>"
  have pre: "lsc_hop_length \<le> length (audio_buffer ?c1)" "hop_length (processor ?c1) = 160"
    "0 < n_mels (processor ?c1)"
    by simp_all
  have "process_hops ?c1 False = process_hops (hop_step ?c1) True"
    by (rule process_hops_one [OF pre])
  also have "\<dots> = (hop_step ?c1, True)"
    by (rule process_hops_stop) simp
  finally show ?thesis by (simp add: one_frame_context_def)
qed

lemma one_frame_context_frames:
  "length (feature_buffer one_frame_context) = 1"
  "list_all (\<lambda>frame. length frame = lsc_n_mels) (feature_buffer one_frame_context)"
proof -
  let ?c1 = "three_values_context\<lparr>audio_buffer := replicate 160 0\<rparr>"
  have pre: "lsc_hop_length \<le> length (audio_buffer ?c1)" "hop_length (processor ?c1) = 160"
    "0 < n_mels (processor ?c1)"
    by simp_all
  show "length (feature_buffer one_frame_context) = 1"
    unfolding one_frame_context_def
    by (simp add: hop_step_first_frame(4) [OF pre] Let_def size_gt_nonneg)
  show "list_all (\<lambda>frame. length frame = lsc_n_mels) (feature_buffer one_frame_context)"
    unfolding one_frame_context_def
    using hop_step_frames [of ?c1] by simp
qed

lemma two_frame_hops:
  "process_hops (three_values_context\<lparr>audio_buffer := replicate 320 0\<rparr>) False =
     (two_frame_context, True)"
  and two_frame_context_frames: "length (feature_buffer two_frame_context) = 2"
proof -
  let ?c1 = "three_values_context\<lparr>audio_buffer := replicate 320 0\<rparr>"
  let ?c2 = "hop_step ?c1"
  have pre1: "lsc_hop_length \<le> length (audio_buffer ?c1)" "hop_length (processor ?c1) = 160"
    "0 < n_mels (processor ?c1)"
    by simp_all
  have pre2: "lsc_hop_length \<le> length (audio_buffer ?c2)" "hop_length (processor ?c2) = 160"
    "0 < n_mels (processor ?c2)"
    using hop_step_first_frame(2,3) [OF pre1] by simp_all
  have "process_hops ?c1 False = process_hops ?c2 True"
    by (rule process_hops_one [OF pre1])
  also have "\<dots> = process_hops (hop_step ?c2) True"
    by (rule process_hops_one [OF pre2])
  also have "\<dots> = (hop_step ?c2, True)"
    by (rule process_hops_stop) simp
  finally show "process_hops ?c1 False = (two_frame_context, True)"
    by (simp add: two_frame_context_def)
  have "length (feature_buffer ?c2) = 1"
    by (simp add: hop_step_first_frame(4) [OF pre1] Let_def size_gt_nonneg)
  then show "length (feature_buffer two_frame_context) = 2"
    unfolding two_frame_context_def
    by (simp add: hop_step_first_frame(4) [OF pre2] Let_def size_gt_nonneg)
qed

lemma resample_loop_silence:
  assumes "0 < ratio" "real m * ratio - ratio < real n - 1" "real n - 1 \<le> real m * ratio"
  shows "j \<le> m \<Longrightarrow>
     resample_loop (replicate n 0) ratio (real j * ratio) buf =
       Some (real m * ratio, buf @ replicate (m - j) 0)"
proof (induction "m - j" arbitrary: j buf)
  case 0
  then have "j = m" by simp
  then show ?case
    using assms(3) by (subst resample_loop.simps) simp
next
  case (Suc k)
  then have j: "j < m" and k: "k = m - Suc j" by simp_all
  let ?pos = "real j * ratio"
  have "real j + 1 \<le> real m" using j by simp
  then have "(real j + 1) * ratio \<le> real m * ratio" using assms(1) by simp
  then have below: "?pos < real n - 1" using assms(2) by (simp add: algebra_simps)
  have nonneg: "0 \<le> ?pos" using assms(1) by simp
  have "of_int \<lfloor>?pos\<rfloor> \<le> ?pos" by simp
  then have "of_int \<lfloor>?pos\<rfloor> < real n - 1" using below by linarith
  then have "\<lfloor>?pos\<rfloor> < int n - 1"
    by (metis of_int_less_iff of_int_diff of_int_of_nat_eq of_int_1)
  moreover have "0 \<le> \<lfloor>?pos\<rfloor>" using nonneg by simp
  ultimately have idx: "nat \<lfloor>?pos\<rfloor> < n" "nat (\<lfloor>?pos\<rfloor> + 1) < n" by linarith+
  have "resample_loop (replicate n 0) ratio ?pos buf =
      resample_loop (replicate n 0) ratio (?pos + ratio) (buf @ [0])"
    using below nonneg idx
    by (subst resample_loop.simps) (simp add: Let_def trunc_def)
  also have "?pos + ratio = real (Suc j) * ratio" by (simp add: algebra_simps)
  also have "resample_loop (replicate n 0) ratio (real (Suc j) * ratio) (buf @ [0]) =
      Some (real m * ratio, (buf @ [0]) @ replicate (m - Suc j) 0)"
    using Suc.hyps(1) [OF k] j by simp
  also have "(buf @ [0]) @ replicate (m - Suc j) 0 = buf @ replicate (m - j) (0::real)"
    using j by (simp add: Suc_diff_Suc replicate_append_same flip: replicate_Suc)
  finally show ?case .
qed

lemma three_values_context_phase: "resample_fraction three_values_context = 0"
  by (simp add: three_values_context_def load_model_loaded)

lemma three_values_resample:
  "resample_and_push three_values_context (map (\<lambda>(x, y). (x + y) * 0.5) (silence 480)) 48000 =
     Some (three_values_context\<lparr>audio_buffer := replicate 160 0\<rparr>)"
proof -
  have loop: "resample_loop (replicate 480 0) 3 (real 0 * 3) [] = Some (real 160 * 3, [] @ replicate (160 - 0) 0)"
    by (rule resample_loop_silence) simp_all
  have same: "three_values_context\<lparr>audio_buffer := replicate 160 0, resample_fraction := 0\<rparr> =
      three_values_context\<lparr>audio_buffer := replicate 160 0\<rparr>"
    using three_values_context_phase by simp
  show ?thesis
    using loop silence_mono(2) [of 480] same
    by (simp add: resample_and_push_def Let_def three_values_context_phase)
qed



subsection \<open>Claim C4\<close>

lemma trunc_values [simp]: "trunc 0 = 0" "trunc (1 / 2) = 0"
  by (simp_all add: trunc_def)

lemma resample_two_samples:
  "resample_loop [a, b] (1 / 2) 0 buf = Some (1, buf @ [a, a + (b - a) * (1 / 2)])"
  by (subst resample_loop.simps, simp, subst resample_loop.simps, simp,
      subst resample_loop.simps, simp)

text \<open>
  Claim C4 fails on the code: the guard that the source comments with ``should not
  happen'' is taken, and the phase it leaves is negative. Two samples at 8000 Hz
  (\<open>ratio = 1 / 2\<close>) on a new context: the cursor stops at \<open>1\<close>, the carried phase is
  \<open>1 - 2 = -1\<close>, and the guard makes it \<open>-1 / 2\<close>, outside \<open>[0, ratio)\<close>. The same
  happens through \<^verbatim>\<open>process\<close> with two stereo samples at 8000 Hz once a model is loaded.
\<close>

theorem resample_fraction_negative:
  "resample_loop [0, 0] (real_of_int 8000 / real_of_int target_sample_rate)
       (resample_fraction new_lip_sync_context) (audio_buffer new_lip_sync_context) =
     Some (1, [0, 0]) \<and>
   (1 :: real) - real (length [0, 0 :: real]) < 0 \<and>
   map_option resample_fraction (resample_and_push new_lip_sync_context [0, 0] 8000) =
     Some (- 1 / 2) \<and>
   map_option (resample_fraction \<circ> snd) (process three_values_context (silence 2) 8000) =
     Some (- 1 / 2)"
proof -
  have loop: "resample_loop [0, 0] (real_of_int 8000 / real_of_int target_sample_rate)
      (resample_fraction new_lip_sync_context) (audio_buffer new_lip_sync_context) = Some (1, [0, 0])"
    by (simp add: resample_two_samples)
  have push: "map_option resample_fraction (resample_and_push new_lip_sync_context [0, 0] 8000) =
      Some (- 1 / 2)"
    by (simp add: resample_and_push_def Let_def resample_two_samples)
  have mono: "map (\<lambda>(x, y). (x + y) * 0.5) (silence 2) = [0, 0]"
    by (simp add: silence_def numeral_2_eq_2)
  have frac: "resample_fraction three_values_context = 0"
    by (simp add: three_values_context_def load_model_loaded)
  let ?c1 = "three_values_context\<lparr>audio_buffer := [0, 0], resample_fraction := - 1 / 2\<rparr>"
  have "resample_and_push three_values_context [0, 0] 8000 = Some ?c1"
    by (simp add: resample_and_push_def Let_def resample_two_samples frac)
  then have push1: "resample_and_push three_values_context
      (map (\<lambda>(x, y). (x + y) * 0.5) (silence 2)) 8000 = Some ?c1"
    by (simp only: mono)
  have hops: "process_hops ?c1 False = (?c1, False)"
    by (rule process_hops_stop) simp
  have ne: "silence 2 \<noteq> []" by (simp add: silence_def)
  have "process three_values_context (silence 2) 8000 = Some ([], ?c1)"
    using process_result [OF three_values_context_model ne push1 hops] by simp
  then have "map_option (resample_fraction \<circ> snd) (process three_values_context (silence 2) 8000) =
      Some (- 1 / 2)"
    by simp
  then show ?thesis using loop push by simp
qed

subsection \<open>Bit reversal\<close>

lemma fft_levels_pow2: "fft_levels (2 ^ k) l = l + k"
proof (induction k arbitrary: l)
  case 0
  then show ?case by (subst fft_levels.simps) simp
next
  case (Suc k)
  have "(1::nat) \<le> 2 ^ k" by (rule one_le_power) simp
  then have "(1::nat) < 2 ^ Suc k" by (simp only: power_Suc)
  then have "fft_levels (2 ^ Suc k) l = fft_levels (2 ^ k) (l + 1)"
    by (subst fft_levels.simps) (simp add: drop_bit_eq_div)
  then show ?case using Suc by simp
qed

lemma bit_reverse_step: "push_bit 1 r OR (c AND 1) = 2 * r + c mod 2" for r c :: nat
  by (cases "even c")
    (simp_all add: push_bit_eq_mult and_one_eq or_one_eq or_Suc_0_eq mod_2_eq_odd)

lemma bit_reverse_bitrev: "bit_reverse j r c = r * 2 ^ j + bitrev j c"
proof (induction j arbitrary: r c)
  case 0
  then show ?case by simp
next
  case (Suc j)
  have "bit_reverse (Suc j) r c = bit_reverse j (2 * r + c mod 2) (c div 2)"
    by (simp only: bit_reverse.simps bit_reverse_step drop_bit_eq_div power_one_right)
  also have "\<dots> = (2 * r + c mod 2) * 2 ^ j + bitrev j (c div 2)" by (rule Suc)
  also have "\<dots> = r * 2 ^ Suc j + bitrev (Suc j) c" by (simp add: algebra_simps)
  finally show ?case .
qed

lemma bitrev_less: "bitrev k i < 2 ^ k"
proof (induction k arbitrary: i)
  case 0
  then show ?case by simp
next
  case (Suc k)
  have "i mod 2 = 0 \<or> i mod 2 = 1" by auto
  then show ?case using Suc [of "i div 2"] by auto
qed

lemma bitrev_top:
  "bitrev (Suc k) i = 2 * bitrev k (i mod 2 ^ k) + (i div 2 ^ k) mod 2"
proof (induction k arbitrary: i)
  case 0
  then show ?case by simp
next
  case (Suc k)
  have a: "(i mod 2 ^ Suc k) mod 2 = i mod 2"
    by (simp add: mod_mod_cancel)
  have b: "(i mod 2 ^ Suc k) div 2 = (i div 2) mod 2 ^ k"
    using div_exp_mod_exp_eq [of i 1 k] by simp
  have c: "(i div 2) div 2 ^ k = i div 2 ^ Suc k"
    by (simp add: div_mult2_eq)
  have e: "bitrev (Suc k) (i mod 2 ^ Suc k) = 2 ^ k * (i mod 2) + bitrev k ((i div 2) mod 2 ^ k)"
    by (simp only: bitrev.simps a b)
  have "bitrev (Suc (Suc k)) i = 2 ^ Suc k * (i mod 2) + bitrev (Suc k) (i div 2)" by simp
  also have "\<dots> = 2 ^ Suc k * (i mod 2) + (2 * bitrev k ((i div 2) mod 2 ^ k) + (i div 2 ^ Suc k) mod 2)"
    by (simp only: Suc c)
  also have "\<dots> = 2 * bitrev (Suc k) (i mod 2 ^ Suc k) + (i div 2 ^ Suc k) mod 2"
    by (simp only: e) simp
  finally show ?case .
qed

lemma bitrev_involution: "i < 2 ^ k \<Longrightarrow> bitrev k (bitrev k i) = i"
proof (induction k arbitrary: i)
  case 0
  then show ?case by simp
next
  case (Suc k)
  let ?y = "2 ^ k * (i mod 2) + bitrev k (i div 2)"
  have i': "i div 2 < 2 ^ k" using Suc.prems by simp
  have lt: "bitrev k (i div 2) < 2 ^ k" by (rule bitrev_less)
  have m: "?y mod 2 ^ k = bitrev k (i div 2)" using lt by simp
  have d: "?y div 2 ^ k = i mod 2" using lt by simp
  have "bitrev (Suc k) (bitrev (Suc k) i) = bitrev (Suc k) ?y" by simp
  also have "\<dots> = 2 * bitrev k (?y mod 2 ^ k) + (?y div 2 ^ k) mod 2" by (rule bitrev_top)
  also have "\<dots> = 2 * (i div 2) + i mod 2" using Suc.IH [OF i'] by (simp only: m d) simp
  also have "\<dots> = i" by simp
  finally show ?case .
qed

subsection \<open>The permutation loop and the butterfly loop\<close>

lemma swap_loop_nth:
  assumes inv: "\<And>i. i < n \<Longrightarrow> brt ! i < n \<and> brt ! (brt ! i) = i"
    and len: "length d = n" and "m \<le> n" "j < n"
  shows "fold (swap_step brt) [0..<m] d ! j = (if min j (brt ! j) < m then d ! (brt ! j) else d ! j)"
  using \<open>m \<le> n\<close> \<open>j < n\<close>
proof (induction m arbitrary: j)
  case 0
  then show ?case by simp
next
  case (Suc m)
  let ?D = "fold (swap_step brt) [0..<m] d"
  have m: "m < n" using Suc.prems by simp
  have IH: "?D ! x = (if min x (brt ! x) < m then d ! (brt ! x) else d ! x)" if "x < n" for x
    using Suc.IH [of x] that m by simp
  have lenD: "length ?D = n" by (simp add: len)
  have bm: "brt ! m < n" "brt ! (brt ! m) = m" using inv [OF m] by simp_all
  have bj: "brt ! j < n" "brt ! (brt ! j) = j" using inv [OF \<open>j < n\<close>] by simp_all
  have Dm: "m \<le> brt ! m \<Longrightarrow> ?D ! m = d ! m" using IH [OF m] by simp
  have Dbm: "m \<le> brt ! m \<Longrightarrow> ?D ! (brt ! m) = d ! (brt ! m)"
    using IH [OF bm(1)] bm(2) by simp
  have step: "fold (swap_step brt) [0..<Suc m] d = swap_step brt m ?D" by simp
  show ?case
  proof (cases "m < brt ! m")
    case True
    have new: "swap_step brt m ?D = ?D[m := ?D ! (brt ! m), brt ! m := ?D ! m]"
      using True by (simp add: swap_step_def)
    consider "j = brt ! m" | "j = m" "j \<noteq> brt ! m" | "j \<noteq> m" "j \<noteq> brt ! m" by blast
    then show ?thesis
    proof cases
      case 1
      then show ?thesis
        using True bm Dm by (simp add: step new nth_upd len min_def)
    next
      case 2
      then show ?thesis
        using True bm Dbm by (simp add: step new nth_upd len min_def)
    next
      case 3
      then have "brt ! j \<noteq> m" using bj bm by metis
      then have "min j (brt ! j) < Suc m \<longleftrightarrow> min j (brt ! j) < m"
        using 3 by (auto simp: min_def)
      then show ?thesis
        using 3 IH [OF \<open>j < n\<close>] by (simp add: step new nth_upd len)
    qed
  next
    case False
    have same: "swap_step brt m ?D = ?D" using False by (simp add: swap_step_def)
    show ?thesis
    proof (cases "min j (brt ! j) = m")
      case True
      then have "j = m"
        using False bj bm by (metis min_def not_less order_antisym_conv)
      then have "brt ! j = j" using True False by (simp add: min_def split: if_splits)
      then show ?thesis using IH [OF \<open>j < n\<close>] by (simp add: step same)
    next
      case False
      then have "min j (brt ! j) < Suc m \<longleftrightarrow> min j (brt ! j) < m" by auto
      then show ?thesis using IH [OF \<open>j < n\<close>] by (simp add: step same)
    qed
  qed
qed

lemma butterfly_loop_nth:
  assumes "m \<le> half" "i + 2 * half \<le> length d"
  shows "fold (butterfly trig half step i) [0..<m] d ! x =
     (if i \<le> x \<and> x < i + m then d ! x + d ! (x + half) * trig ! ((x - i) * step)
      else if i + half \<le> x \<and> x < i + half + m
           then d ! (x - half) - d ! x * trig ! ((x - i - half) * step)
      else d ! x)"
  using assms(1)
proof (induction m arbitrary: x)
  case 0
  then show ?case by auto
next
  case (Suc m)
  let ?D = "fold (butterfly trig half step i) [0..<m] d"
  have IH: "?D ! y =
     (if i \<le> y \<and> y < i + m then d ! y + d ! (y + half) * trig ! ((y - i) * step)
      else if i + half \<le> y \<and> y < i + half + m
           then d ! (y - half) - d ! y * trig ! ((y - i - half) * step)
      else d ! y)" for y
    using Suc.IH [of y] Suc.prems by simp
  have m: "m < half" using Suc.prems by simp
  have u: "?D ! (i + m) = d ! (i + m)" using m by (simp add: IH)
  have v: "?D ! (i + m + half) = d ! (i + m + half)" using m by (simp add: IH)
  have lenD: "length ?D = length d" by simp
  have in1: "i + m < length d" and in2: "i + m + half < length d" using m assms(2) by simp_all
  have step: "butterfly trig half step i m ?D =
      ?D[i + m := d ! (i + m) + d ! (i + m + half) * trig ! (m * step),
         i + m + half := d ! (i + m) - d ! (i + m + half) * trig ! (m * step)]"
    by (simp add: butterfly_def Let_def u v)
  consider "x = i + m" | "x = i + m + half" | "x \<noteq> i + m" "x \<noteq> i + m + half" by blast
  then show ?case
  proof cases
    case 1
    then show ?thesis using m in1 by (simp add: step nth_upd lenD)
  next
    case 2
    then show ?thesis using m in2 by (simp add: step nth_upd lenD)
  next
    case 3
    have "(i \<le> x \<and> x < i + Suc m) \<longleftrightarrow> (i \<le> x \<and> x < i + m)" using 3 by auto
    moreover have "(i + half \<le> x \<and> x < i + half + Suc m) \<longleftrightarrow> (i + half \<le> x \<and> x < i + half + m)"
      using 3 by auto
    ultimately show ?thesis using 3 by (simp add: step nth_upd IH)
  qed
qed

subsection \<open>One pass over the groups\<close>

lemma stage_cong:
  assumes "d1 ! x = d ! x" "x mod (2 * half) < half \<Longrightarrow> d1 ! (x + half) = d ! (x + half)"
    "half \<le> x mod (2 * half) \<Longrightarrow> d1 ! (x - half) = d ! (x - half)"
  shows "stage trig half step d1 x = stage trig half step d x"
  using assms by (simp add: stage_def Let_def)

lemma fft_groups_nth:
  assumes "0 < half" "length d = i + c * (2 * half)" "n = length d" "2 * half dvd i"
  shows "fft_groups trig n (2 * half) i d ! x =
     (if i \<le> x \<and> x < n then stage trig half (n div (2 * half)) d x else d ! x)"
  using assms(2-4)
proof (induction c arbitrary: i d x)
  case 0
  then show ?case by (subst fft_groups.simps) auto
next
  case (Suc c)
  let ?len = "2 * half"
  let ?step = "n div ?len"
  let ?d1 = "fold (butterfly trig half ?step i) [0..<half] d"
  have i: "i < n" "i + ?len \<le> n" using Suc.prems assms(1) by simp_all
  have d1: "?d1 ! y =
     (if i \<le> y \<and> y < i + half then d ! y + d ! (y + half) * trig ! ((y - i) * ?step)
      else if i + half \<le> y \<and> y < i + half + half
           then d ! (y - half) - d ! y * trig ! ((y - i - half) * ?step)
      else d ! y)" for y
    using i Suc.prems(2) by (intro butterfly_loop_nth) simp_all
  have unfold: "fft_groups trig n ?len i d = fft_groups trig n ?len (i + ?len) ?d1"
    using i assms(1) by (subst fft_groups.simps) (simp add: drop_bit_eq_div)
  have IH: "fft_groups trig n ?len (i + ?len) ?d1 ! x =
     (if i + ?len \<le> x \<and> x < n then stage trig half ?step ?d1 x else ?d1 ! x)"
    using Suc.prems by (intro Suc.IH) simp_all
  consider "x < i" | "i \<le> x" "x < i + ?len" | "i + ?len \<le> x" "x < n" | "n \<le> x"
    by linarith
  then show ?case
  proof cases
    case 1
    then show ?thesis by (simp add: unfold IH d1)
  next
    case 2
    obtain q where q: "i = ?len * q" using Suc.prems(3) by (elim dvdE)
    have "x = ?len * q + (x - i)" "x - i < ?len" using 2 q by simp_all
    then have r: "x mod ?len = x - i" by (metis mod_less mod_mult_self4)
    show ?thesis
      using 2 i r by (auto simp: unfold IH d1 stage_def Let_def)
  next
    case 3
    obtain q where q: "i + ?len = ?len * q" using Suc.prems(3) by (metis dvd_add_triv_right_iff dvdE)
    have "?len * q \<le> x" using 3 q by simp
    then have "q \<le> x div ?len" using assms(1) by (simp add: less_eq_div_iff_mult_less_eq mult.commute)
    then have "?len * q \<le> ?len * (x div ?len)" by simp
    then have base: "i + ?len \<le> ?len * (x div ?len)" using q by simp
    have x: "x = ?len * (x div ?len) + x mod ?len" by simp
    have a: "?d1 ! x = d ! x" using 3 by (simp add: d1)
    have b: "?d1 ! (x + half) = d ! (x + half)" using 3 by (simp add: d1)
    have c: "?d1 ! (x - half) = d ! (x - half)" if "half \<le> x mod ?len"
    proof -
      have "i + ?len \<le> x - half" using that base x by linarith
      then show ?thesis by (simp add: d1)
    qed
    have "stage trig half ?step ?d1 x = stage trig half ?step d x"
      by (rule stage_cong) (use a b c in auto)
    then show ?thesis using 3 by (simp add: unfold IH)
  next
    case 4
    then show ?thesis using i by (simp add: unfold IH d1)
  qed
qed

subsection \<open>Roots of unity and the radix-2 splitting\<close>

lemma wp_add: "wp N (a + b) = wp N a * wp N b"
proof -
  have "- 2 * pi * real (a + b) / real N = - 2 * pi * real a / real N + - 2 * pi * real b / real N"
    by (simp add: diff_divide_distrib distrib_left)
  then show ?thesis by (simp only: wp_def cis_mult)
qed

lemma wp_0 [simp]: "wp N 0 = 1"
  by (simp add: wp_def)

lemma wp_double: "0 < h \<Longrightarrow> wp (2 * h) (2 * e) = wp h e"
proof -
  assume "0 < h"
  then have "- 2 * pi * real (2 * e) / real (2 * h) = - 2 * pi * real e / real h" by simp
  then show ?thesis by (simp only: wp_def)
qed

lemma wp_scale: "0 < s \<Longrightarrow> wp (N * s) (e * s) = wp N e"
proof -
  assume "0 < s"
  then have "- 2 * pi * real (e * s) / real (N * s) = - 2 * pi * real e / real N" by simp
  then show ?thesis by (simp only: wp_def)
qed

lemma wp_full: "wp N (N * e) = 1"
proof (cases "N = 0")
  case True
  then show ?thesis by (simp add: wp_def)
next
  case False
  then have "- 2 * pi * real (N * e) / real N = 2 * pi * of_int (- int e)" by simp
  then have "wp N (N * e) = cis (2 * pi * of_int (- int e))" by (simp only: wp_def)
  also have "\<dots> = 1" by (rule cis_multiple_2pi) simp
  finally show ?thesis .
qed

lemma wp_half: "0 < h \<Longrightarrow> wp (2 * h) h = - 1"
proof -
  assume "0 < h"
  then have "- 2 * pi * real h / real (2 * h) = - pi" by simp
  then have "wp (2 * h) h = cis (- pi)" by (simp only: wp_def)
  then show ?thesis by (simp add: complex_eq_iff)
qed

lemma wp_period: "wp N (a + N * b) = wp N a"
  by (simp add: wp_add wp_full)

lemma sum_even_odd:
  fixes f :: "nat \<Rightarrow> complex"
  shows "(\<Sum>m<2 * h. f m) = (\<Sum>m<h. f (2 * m)) + (\<Sum>m<h. f (2 * m + 1))"
  by (induction h) (simp_all add: algebra_simps)

lemma sub_dft_even_odd:
  assumes "0 < h"
  shows "sub_dft data (2 * h) r q j =
         sub_dft data h r (2 * q) j + wp (2 * h) j * sub_dft data h (r + q) (2 * q) j"
proof -
  have ev: "data ! (r + 2 * m * q) * wp (2 * h) (j * (2 * m)) =
      data ! (r + m * (2 * q)) * wp h (j * m)" for m
  proof -
    have "j * (2 * m) = 2 * (j * m)" "r + 2 * m * q = r + m * (2 * q)" by simp_all
    then show ?thesis using wp_double [OF assms, of "j * m"] by (simp only:)
  qed
  have od: "data ! (r + (2 * m + 1) * q) * wp (2 * h) (j * (2 * m + 1)) =
      wp (2 * h) j * (data ! (r + q + m * (2 * q)) * wp h (j * m))" for m
  proof -
    have e1: "j * (2 * m + 1) = 2 * (j * m) + j" by (simp add: algebra_simps)
    have "wp (2 * h) (j * (2 * m + 1)) = wp h (j * m) * wp (2 * h) j"
      by (simp only: e1 wp_add wp_double [OF assms])
    moreover have "r + (2 * m + 1) * q = r + q + m * (2 * q)" by (simp add: algebra_simps)
    ultimately show ?thesis by (simp only: mult_ac)
  qed
  have "sub_dft data (2 * h) r q j =
      (\<Sum>m<h. data ! (r + 2 * m * q) * wp (2 * h) (j * (2 * m))) +
      (\<Sum>m<h. data ! (r + (2 * m + 1) * q) * wp (2 * h) (j * (2 * m + 1)))"
    unfolding sub_dft_def by (rule sum_even_odd)
  also have "\<dots> = (\<Sum>m<h. data ! (r + m * (2 * q)) * wp h (j * m)) +
      (\<Sum>m<h. wp (2 * h) j * (data ! (r + q + m * (2 * q)) * wp h (j * m)))"
    by (simp only: ev od)
  also have "\<dots> = sub_dft data h r (2 * q) j + wp (2 * h) j * sub_dft data h (r + q) (2 * q) j"
    by (simp add: sub_dft_def sum_distrib_left)
  finally show ?thesis .
qed

lemma sub_dft_period: "sub_dft data h r q (j + h) = sub_dft data h r q j"
proof -
  have "wp h ((j + h) * m) = wp h (j * m)" for m
  proof -
    have "(j + h) * m = j * m + h * m" by (simp add: algebra_simps)
    then show ?thesis by (simp add: wp_period)
  qed
  then show ?thesis by (simp add: sub_dft_def)
qed

lemma sub_dft_even_odd_upper:
  assumes "0 < h"
  shows "sub_dft data (2 * h) r q (j + h) =
         sub_dft data h r (2 * q) j - wp (2 * h) j * sub_dft data h (r + q) (2 * q) j"
  using sub_dft_even_odd [OF assms, of data r q "j + h"]
  by (simp add: sub_dft_period wp_add wp_half [OF assms])

subsection \<open>The invariant of the stages\<close>

lemma stage_step:
  assumes s: "s < k" and inv: "stage_inv data k s D"
    and trig: "\<And>e. e < 2 ^ k div 2 \<Longrightarrow> trig ! e = wp (2 ^ k) e"
  shows "stage_inv data k (Suc s) (fft_groups trig (2 ^ k) (2 ^ Suc s) 0 D)"
proof -
  let ?n = "2 ^ k :: nat"
  let ?half = "2 ^ s :: nat"
  let ?t = "k - Suc s"
  let ?q = "2 ^ ?t :: nat"
  have ks: "k - s = Suc ?t" using s by simp
  have n: "?n = 2 * ?half * ?q"
  proof -
    have "k = Suc s + ?t" using s by simp
    then have "?n = 2 ^ (Suc s + ?t)" by simp
    then show ?thesis by (simp only: power_add power_Suc)
  qed
  have len: "length D = ?n" using inv by (simp add: stage_inv_def)
  have D: "D ! (b * ?half + j) = sub_dft data ?half (bitrev (Suc ?t) b) (2 * ?q) j"
    if "b < 2 * ?q" "j < ?half" for b j
    using inv that by (simp add: stage_inv_def ks)
  have step: "?n div (2 * ?half) = ?q" using n by simp
  have nth: "fft_groups trig ?n (2 * ?half) 0 D ! x =
      (if x < ?n then stage trig ?half ?q D x else D ! x)" for x
    using fft_groups_nth [of ?half D 0 ?q ?n trig x] len n step by simp
  have tw: "trig ! (j * ?q) = wp (2 * ?half) j" if "j < ?half" for j
  proof -
    have "j * ?q < ?half * ?q" using that by simp
    then have "j * ?q < ?n div 2" using n by simp
    then have "trig ! (j * ?q) = wp ?n (j * ?q)" by (rule trig)
    also have "\<dots> = wp (2 * ?half * ?q) (j * ?q)" using n by simp
    also have "\<dots> = wp (2 * ?half) j" by (rule wp_scale) simp
    finally show ?thesis .
  qed
  have main: "fft_groups trig ?n (2 * ?half) 0 D ! (b * (2 * ?half) + j) =
      sub_dft data (2 * ?half) (bitrev ?t b) ?q j"
    if b: "b < ?q" and j: "j < 2 * ?half" for b j
  proof -
    let ?x = "b * (2 * ?half) + j"
    have "?x < b * (2 * ?half) + 2 * ?half" using j by simp
    also have "\<dots> = Suc b * (2 * ?half)" by simp
    also have "\<dots> \<le> ?q * (2 * ?half)" using b by (intro mult_le_mono1) simp
    finally have x: "?x < ?n" using n by (simp add: mult.commute)
    have r: "?x mod (2 * ?half) = j" using j by simp
    have e0: "bitrev (Suc ?t) (2 * b) = bitrev ?t b" by simp
    have e1: "bitrev (Suc ?t) (2 * b + 1) = bitrev ?t b + ?q" by simp
    have b0: "2 * b < 2 * ?q" and b1: "2 * b + 1 < 2 * ?q" using b by simp_all
    show ?thesis
    proof (cases "j < ?half")
      case True
      have eq0: "?x = (2 * b) * ?half + j" by (simp add: algebra_simps)
      have eq1: "?x + ?half = (2 * b + 1) * ?half + j" by (simp add: algebra_simps)
      have a: "D ! ?x = sub_dft data ?half (bitrev ?t b) (2 * ?q) j"
        using D [OF b0 True] by (simp only: eq0 e0)
      have c: "D ! (?x + ?half) = sub_dft data ?half (bitrev ?t b + ?q) (2 * ?q) j"
        using D [OF b1 True] by (simp only: eq1 e1)
      have "fft_groups trig ?n (2 * ?half) 0 D ! ?x =
          D ! ?x + D ! (?x + ?half) * trig ! (j * ?q)"
        using x True by (simp only: nth stage_def Let_def r if_True)
      also have "\<dots> = sub_dft data ?half (bitrev ?t b) (2 * ?q) j +
          wp (2 * ?half) j * sub_dft data ?half (bitrev ?t b + ?q) (2 * ?q) j"
        by (simp only: a c tw [OF True] mult.commute)
      also have "\<dots> = sub_dft data (2 * ?half) (bitrev ?t b) ?q j"
        by (rule sub_dft_even_odd [symmetric]) simp
      finally show ?thesis .
    next
      case False
      let ?j = "j - ?half"
      have j': "?j < ?half" "?j + ?half = j" using False j by simp_all
      have eq0: "?x - ?half = (2 * b) * ?half + ?j" using False by (simp add: algebra_simps)
      have eq1: "?x = (2 * b + 1) * ?half + ?j" using False by (simp add: algebra_simps)
      have a: "D ! (?x - ?half) = sub_dft data ?half (bitrev ?t b) (2 * ?q) ?j"
        using D [OF b0 j'(1)] by (simp only: eq0 e0)
      have c: "D ! ?x = sub_dft data ?half (bitrev ?t b + ?q) (2 * ?q) ?j"
        using D [OF b1 j'(1)] by (simp only: eq1 [symmetric] e1)
      have "fft_groups trig ?n (2 * ?half) 0 D ! ?x =
          D ! (?x - ?half) - D ! ?x * trig ! (?j * ?q)"
        using x False by (simp only: nth stage_def Let_def r if_True if_False)
      also have "\<dots> = sub_dft data ?half (bitrev ?t b) (2 * ?q) ?j -
          wp (2 * ?half) ?j * sub_dft data ?half (bitrev ?t b + ?q) (2 * ?q) ?j"
        by (simp only: a c tw [OF j'(1)] mult.commute)
      also have "\<dots> = sub_dft data (2 * ?half) (bitrev ?t b) ?q (?j + ?half)"
        by (rule sub_dft_even_odd_upper [symmetric]) simp
      finally show ?thesis by (simp only: j'(2))
    qed
  qed
  have "length (fft_groups trig ?n (2 ^ Suc s) 0 D) = 2 ^ k" by (simp add: len)
  moreover have "k - Suc s = ?t" "(2 ^ Suc s :: nat) = 2 * ?half" by simp_all
  ultimately show ?thesis
    unfolding stage_inv_def using main by (simp only:) blast
qed

subsection \<open>The transform is the discrete Fourier transform; claim C3\<close>

lemma fft_stages_inv:
  assumes "s \<le> k" "stage_inv data k s D"
    and trig: "\<And>e. e < 2 ^ k div 2 \<Longrightarrow> trig ! e = wp (2 ^ k) e"
  shows "stage_inv data k k (fft_stages trig (2 ^ k) (2 ^ Suc s) D)"
  using assms(1,2)
proof (induction "k - s" arbitrary: s D)
  case 0
  then have "s = k" by simp
  have "\<not> (2 ^ Suc k \<le> (2 ^ k :: nat))" by simp
  then have "fft_stages trig (2 ^ k) (2 ^ Suc k) D = D"
    by (subst fft_stages.simps) simp
  then show ?case using 0 \<open>s = k\<close> by simp
next
  case (Suc d)
  then have s: "s < k" by simp
  have le: "(2 ^ Suc s :: nat) \<le> 2 ^ k" using s by (intro power_increasing) simp_all
  have "fft_stages trig (2 ^ k) (2 ^ Suc s) D =
      fft_stages trig (2 ^ k) (2 ^ Suc (Suc s)) (fft_groups trig (2 ^ k) (2 ^ Suc s) 0 D)"
    using le by (subst fft_stages.simps) (simp add: push_bit_eq_mult)
  moreover have "stage_inv data k k
      (fft_stages trig (2 ^ k) (2 ^ Suc (Suc s)) (fft_groups trig (2 ^ k) (2 ^ Suc s) 0 D))"
  proof (rule Suc.hyps(1))
    show "d = k - Suc s" using Suc.hyps(2) by simp
    show "Suc s \<le> k" using s by simp
    show "stage_inv data k (Suc s) (fft_groups trig (2 ^ k) (2 ^ Suc s) 0 D)"
      by (rule stage_step [OF s Suc.prems(2) trig])
  qed
  ultimately show ?case by simp
qed

lemma init_fft_tables:
  assumes "n_fft p = 2 ^ k"
  shows "i < 2 ^ k \<Longrightarrow> bit_reverse_table (init_fft p) ! i = bitrev k i"
    and "e < 2 ^ k div 2 \<Longrightarrow> trig_tables (init_fft p) ! e = wp (2 ^ k) e"
proof -
  show "bit_reverse_table (init_fft p) ! i = bitrev k i" if "i < 2 ^ k"
    using that assms fft_levels_pow2 [of k 0]
    by (simp add: tables_init_fft bit_reverse_bitrev del: upt_Suc)
  show "trig_tables (init_fft p) ! e = wp (2 ^ k) e" if "e < 2 ^ k div 2"
  proof -
    have "trig_tables (init_fft p) ! e =
        Complex (cos (- 2 * pi * real e / real (n_fft p))) (sin (- 2 * pi * real e / real (n_fft p)))"
      using that assms by (simp add: tables_init_fft del: upt_Suc)
    also have "\<dots> = cis (- 2 * pi * real e / real (n_fft p))"
      by (simp add: complex_eq_iff)
    finally show ?thesis using assms by (simp add: wp_def)
  qed
qed

lemma permuted_inv:
  assumes "length data = 2 ^ k" "\<And>i. i < 2 ^ k \<Longrightarrow> brt ! i = bitrev k i"
  shows "stage_inv data k 0 (fold (swap_step brt) [0..<2 ^ k] data)"
proof -
  have inv: "brt ! i < 2 ^ k \<and> brt ! (brt ! i) = i" if "i < 2 ^ k" for i
    using that assms(2) bitrev_less [of k i] bitrev_involution [of i k] by simp
  have "fold (swap_step brt) [0..<2 ^ k] data ! j = data ! bitrev k j" if "j < 2 ^ k" for j
  proof -
    have "fold (swap_step brt) [0..<2 ^ k] data ! j =
        (if min j (brt ! j) < 2 ^ k then data ! (brt ! j) else data ! j)"
      by (rule swap_loop_nth [where n = "2 ^ k"]) (use inv assms(1) that in simp_all)
    moreover have "min j (brt ! j) < 2 ^ k" using that by (simp add: min_less_iff_disj)
    ultimately show ?thesis using assms(2) [OF that] by simp
  qed
  then show ?thesis
    by (simp add: stage_inv_def assms(1) sub_dft_def)
qed

lemma dft_sub_dft: "dft data j = sub_dft data (length data) 0 1 j"
proof -
  have "exp (- (2 * of_real pi * \<i> * of_nat m * of_nat j / of_nat (length data))) =
      wp (length data) (j * m)" for m
  proof -
    have "- (2 * of_real pi * \<i> * of_nat m * of_nat j / of_nat (length data)) =
        \<i> * of_real (- 2 * pi * real (j * m) / real (length data))"
      by simp
    then show ?thesis by (simp only: wp_def cis_conv_exp)
  qed
  then show ?thesis by (simp add: dft_def sub_dft_def)
qed

lemma perform_fft_sub_dft:
  assumes "n_fft p = 2 ^ k" "length data = n_fft p" "j < n_fft p"
  shows "perform_fft (init_fft p) data ! j = dft data j"
proof -
  let ?q = "init_fft p"
  have len: "length data = 2 ^ k" using assms by simp
  have "stage_inv data k 0 (fold (swap_step (bit_reverse_table ?q)) [0..<2 ^ k] data)"
    by (rule permuted_inv [OF len]) (rule init_fft_tables(1) [OF assms(1)])
  then have "stage_inv data k k
      (fft_stages (trig_tables ?q) (2 ^ k) (2 ^ Suc 0)
         (fold (swap_step (bit_reverse_table ?q)) [0..<2 ^ k] data))"
    by (rule fft_stages_inv [OF le0]) (rule init_fft_tables(2) [OF assms(1)])
  then have "stage_inv data k k (perform_fft ?q data)"
    by (simp add: perform_fft_def Let_def len)
  then have "perform_fft ?q data ! j = sub_dft data (2 ^ k) 0 1 j"
    using assms(1,3) by (simp add: stage_inv_def)
  then show ?thesis by (simp add: dft_sub_dft len)
qed

text \<open>
  Claim C3. For \<^verbatim>\<open>n_fft\<close> a power of two, the tables built by \<^verbatim>\<open>init_fft\<close> and a sequence
  of \<^verbatim>\<open>n_fft\<close> complex samples, \<^verbatim>\<open>perform_fft\<close> leaves a sequence of the same length whose
  element \<open>j\<close> is the discrete Fourier transform of the input at \<open>j\<close>, the sum over \<open>m\<close> of
  \<open>input[m] * e^(-2 * pi * i * m * j / n)\<close>. Arithmetic is exact here; the rounding of
  \<^verbatim>\<open>float\<close> is outside the model.
\<close>

theorem perform_fft_dft:
  assumes "power_of_two (n_fft p)" "length data = n_fft p" "j < n_fft p"
  shows "length (perform_fft (init_fft p) data) = n_fft p \<and>
         perform_fft (init_fft p) data ! j = dft data j"
proof -
  obtain k where "n_fft p = 2 ^ k" using assms(1) by (auto simp: power_of_two_def)
  from perform_fft_sub_dft [OF this assms(2,3)] show ?thesis by (simp add: assms(2))
qed

theorem perform_fft_dft_witness:
  "power_of_two (n_fft demo_processor) \<and> length [1, 2, 3, 4 :: complex] = n_fft demo_processor \<and>
   0 < n_fft demo_processor \<and>
   length (perform_fft (init_fft demo_processor) [1, 2, 3, 4]) = 4 \<and>
   perform_fft (init_fft demo_processor) [1, 2, 3, 4] ! 0 = 10"
proof -
  have p: "power_of_two (n_fft demo_processor)" using config_ok_demo by (simp add: config_ok_def)
  have "dft [1, 2, 3, 4] 0 = 10" by (simp add: dft_def lessThan_Suc numeral_eq_Suc)
  then show ?thesis
    using perform_fft_dft [OF p, of "[1, 2, 3, 4]" 0] p by simp
qed

end
